theory Spec2Isabelle
  imports Complex_Main "HOL-Library.FSet" "HOL-Library.List_Lexorder" "HOL-Library.Char_ord"
begin

section \<open>The action-intent buffer (game\_agent/actions.py)\<close>

text \<open>
  The device backend (pydirectinput) is external: every call of it is recorded as an
  event, in the order in which \<open>flush\<close> and \<open>release_all\<close> issue the calls.
  \<open>Sleep\<close> is \<open>time.sleep\<close>, with its argument in seconds.
\<close>

datatype event =
    KeyDown string
  | KeyUp string
  | Press string
  | Sleep real
  | MoveTo int int
  | MouseDown
  | MouseUp

text \<open>
  The fields of class \<open>Actions\<close>. The two key sets are Python sets of key names, so they
  are finite sets of strings. Python iterates a set in hash order; the model iterates in
  the order of \<open>sorted_list_of_fset\<close>, and no theorem below depends on that order.
\<close>

record Actions =
  held_keys :: "string fset"
  mouse_is_down :: bool
  desired_keys :: "string fset"
  mouse_target :: "(int \<times> int) option"
  want_attack :: bool
  queued_dashes :: "string list"

definition init_actions :: Actions where
  "init_actions = \<lparr>held_keys = {||}, mouse_is_down = False, desired_keys = {||},
     mouse_target = None, want_attack = False, queued_dashes = []\<rparr>"

definition move_left :: "Actions \<Rightarrow> Actions" where
  "move_left s = s\<lparr>desired_keys := finsert ''a'' (desired_keys s)\<rparr>"

definition move_right :: "Actions \<Rightarrow> Actions" where
  "move_right s = s\<lparr>desired_keys := finsert ''d'' (desired_keys s)\<rparr>"

definition fly_up :: "Actions \<Rightarrow> Actions" where
  "fly_up s = s\<lparr>desired_keys := finsert ''space'' (desired_keys s)\<rparr>"

definition move_down :: "Actions \<Rightarrow> Actions" where
  "move_down s = s\<lparr>desired_keys := finsert ''s'' (desired_keys s)\<rparr>"

definition move_down_fast :: "Actions \<Rightarrow> Actions" where
  "move_down_fast s = s\<lparr>desired_keys := finsert ''b'' (desired_keys s)\<rparr>"

definition attack_at :: "int \<Rightarrow> int \<Rightarrow> Actions \<Rightarrow> Actions" where
  "attack_at x y s = s\<lparr>mouse_target := Some (x, y), want_attack := True\<rparr>"

definition dash_left :: "Actions \<Rightarrow> Actions" where
  "dash_left s = s\<lparr>queued_dashes := queued_dashes s @ [''left'']\<rparr>"

definition dash_right :: "Actions \<Rightarrow> Actions" where
  "dash_right s = s\<lparr>queued_dashes := queued_dashes s @ [''right'']\<rparr>"

text \<open>The key that a queued dash direction double-taps (\<open>'a' if direction == 'left' else 'd'\<close>).\<close>

definition dash_key :: "string \<Rightarrow> string" where
  "dash_key direction = (if direction = ''left'' then ''a'' else ''d'')"

text \<open>Step 1 of \<open>flush\<close>: at most one dash, the first one queued.\<close>

definition flush_dash :: "Actions \<Rightarrow> Actions \<times> event list" where
  "flush_dash s =
     (case queued_dashes s of
        [] \<Rightarrow> (s, [])
      | direction # _ \<Rightarrow>
          (let key = dash_key direction;
               (s1, e1) = (if key |\<in>| held_keys s
                           then (s\<lparr>held_keys := held_keys s |-| {|key|}\<rparr>, [KeyUp key])
                           else (s, []))
           in (s1, e1 @ [Press key, Sleep 0.03, Press key])))"

text \<open>Step 2: reconcile the movement keys and set held = desired.\<close>

definition flush_keys :: "Actions \<Rightarrow> Actions \<times> event list" where
  "flush_keys s =
     (let keys_to_release = held_keys s |-| desired_keys s;
          keys_to_press = desired_keys s |-| held_keys s
      in (s\<lparr>held_keys := desired_keys s\<rparr>,
          map KeyUp (sorted_list_of_fset keys_to_release) @
          map KeyDown (sorted_list_of_fset keys_to_press)))"

text \<open>Steps 3 and 4: move the pointer, then reconcile the mouse button.\<close>

definition flush_mouse :: "Actions \<Rightarrow> Actions \<times> event list" where
  "flush_mouse s =
     (let e3 = (case mouse_target s of None \<Rightarrow> [] | Some (x, y) \<Rightarrow> [MoveTo x y])
      in if want_attack s \<and> \<not> mouse_is_down s then (s\<lparr>mouse_is_down := True\<rparr>, e3 @ [MouseDown])
         else if \<not> want_attack s \<and> mouse_is_down s then (s\<lparr>mouse_is_down := False\<rparr>, e3 @ [MouseUp])
         else (s, e3))"

text \<open>Step 5: reset the per-frame intent.\<close>

definition flush_reset :: "Actions \<Rightarrow> Actions" where
  "flush_reset s = s\<lparr>desired_keys := {||}, mouse_target := None, want_attack := False,
     queued_dashes := []\<rparr>"

definition flush :: "Actions \<Rightarrow> Actions \<times> event list" where
  "flush s =
     (let (s1, e1) = flush_dash s;
          (s2, e2) = flush_keys s1;
          (s3, e3) = flush_mouse s2
      in (flush_reset s3, e1 @ e2 @ e3))"


text \<open>
  What a policy script can do to the buffer during one frame: a sequence of calls of the
  script-facing methods.
\<close>

datatype decl =
    MoveLeft | MoveRight | FlyUp | MoveDown | MoveDownFast
  | AttackAt int int
  | DashLeft | DashRight

fun call_action :: "decl \<Rightarrow> Actions \<Rightarrow> Actions" where
  "call_action MoveLeft s = move_left s"
| "call_action MoveRight s = move_right s"
| "call_action FlyUp s = fly_up s"
| "call_action MoveDown s = move_down s"
| "call_action MoveDownFast s = move_down_fast s"
| "call_action (AttackAt x y) s = attack_at x y s"
| "call_action DashLeft s = dash_left s"
| "call_action DashRight s = dash_right s"

definition policy_calls :: "decl list \<Rightarrow> Actions \<Rightarrow> Actions" where
  "policy_calls ds s = fold call_action ds s"

text \<open>The state between two frames: every per-frame field is reset.\<close>

definition intent_reset :: "Actions \<Rightarrow> bool" where
  "intent_reset s \<longleftrightarrow> desired_keys s = {||} \<and> mouse_target s = None \<and> \<not> want_attack s \<and>
     queued_dashes s = []"

text \<open>The keys a frame's calls declare, and the keys of the dashes they queue.\<close>

definition declared_keys :: "decl list \<Rightarrow> string fset" where
  "declared_keys ds = desired_keys (policy_calls ds init_actions)"

definition dashed_keys :: "decl list \<Rightarrow> string list" where
  "dashed_keys ds = map dash_key (queued_dashes (policy_calls ds init_actions))"

text \<open>
  Consecutive frames with nothing but the policy's calls and \<open>flush\<close> in each: the device
  events of each frame's flush, frame by frame.
\<close>

fun flush_frames :: "Actions \<Rightarrow> decl list list \<Rightarrow> event list list" where
  "flush_frames s [] = []"
| "flush_frames s (ds # fs) =
     (let (s', es) = flush (policy_calls ds s) in es # flush_frames s' fs)"

text \<open>The device events that concern key \<open>k\<close>.\<close>

definition on_key :: "string \<Rightarrow> event \<Rightarrow> bool" where
  "on_key k e \<longleftrightarrow> e = KeyDown k \<or> e = KeyUp k \<or> e = Press k"

definition key_events :: "string \<Rightarrow> event list \<Rightarrow> event list" where
  "key_events k es = filter (on_key k) es"

text \<open>The events of a double-tap: the two presses and the pause between them.\<close>

fun is_tap :: "event \<Rightarrow> bool" where
  "is_tap (Press _) = True"
| "is_tap (Sleep _) = True"
| "is_tap _ = False"

section \<open>The script runner (game\_agent/script\_runner.py)\<close>

text \<open>
  What Python can raise inside the loop: \<open>Exception m\<close> is any exception of class
  \<open>Exception\<close> (with \<open>m\<close> its text), the one kind that \<open>except Exception\<close> catches;
  \<open>KeyboardInterrupt\<close> and \<open>SystemExit\<close> derive from \<open>BaseException\<close> only.
\<close>

datatype exc = Exception string | KeyboardInterrupt | SystemExit

text \<open>
  What the loop lets the outside see, in order: device calls, the pacing sleep
  (\<open>Dev (Sleep t)\<close>), printed lines, the periodic status line (its text depends on the
  clock and on the perception store), and, in \<open>main\<close>, the stop of the tracker service.
\<close>

datatype out = Dev event | Print string | Status | Banner | TrackerStop

text \<open>
  One iteration as the environment determines it. \<open>stop_set\<close> is what
  \<open>stop_event.is_set()\<close> returns at the head of the iteration (read by
  \<open>run_script_timed\<close> only). \<open>calls\<close> are the calls \<open>script_module.run\<close> makes on the
  buffer before it returns or raises, \<open>raised\<close> what it raises. \<open>body_elapsed\<close> is the
  time the iteration has taken when the pacing sleep is computed. \<open>after_flush\<close> is an
  exception raised in the remainder of the iteration, after \<open>flush\<close> has returned (by the
  logging or the sleep, or a Ctrl+C delivered there). An interrupt in the middle of
  \<open>flush\<close> is not modelled: the device calls of one flush are taken as a whole.
\<close>

record frame =
  stop_set :: bool
  calls :: "decl list"
  raised :: "exc option"
  body_elapsed :: real
  after_flush :: "exc option"

text \<open>
  The inner \<open>try: script_module.run(game_state, actions) except Exception as e: print(...)\<close>.
  The third component is the exception that escapes it.
\<close>

definition run_policy :: "frame \<Rightarrow> Actions \<Rightarrow> Actions \<times> out list \<times> exc option" where
  "run_policy f s =
     (let s1 = policy_calls (calls f) s
      in case raised f of
           None \<Rightarrow> (s1, [], None)
         | Some (Exception m) \<Rightarrow> (s1, [Print (''[ERROR] Script error: '' @ m)], None)
         | Some e \<Rightarrow> (s1, [], Some e))"

text \<open>
  How a while loop is left: its condition became false, an exception escaped its body, or
  (the list of iterations being used up) it is still running.
\<close>

datatype loop_exit = Stopped | Raise exc | Running

text \<open>
  The end of an iteration, the same in both loops but for the text of the status line:
  the status line every \<open>fps\<close> frames when \<open>verbose\<close>, then the sleep for what is
  left of the frame time, if anything is left.
\<close>

definition log_and_pace :: "int \<Rightarrow> bool \<Rightarrow> real \<Rightarrow> int \<Rightarrow> frame \<Rightarrow> out list" where
  "log_and_pace fps verbose frame_time frame_count f =
     (let o3 = (if verbose \<and> frame_count mod fps = 0 then [Status] else []);
          sleep_time = frame_time - body_elapsed f
      in o3 @ (if sleep_time > 0 then [Dev (Sleep sleep_time)] else []))"

text \<open>
  The \<open>while True\<close> loop of \<open>run_script_loop\<close>, from the iteration with the given
  \<open>frame_count\<close>; the result is the buffer, the output and the way the loop is left.
\<close>

fun while_true ::
  "int \<Rightarrow> bool \<Rightarrow> real \<Rightarrow> int \<Rightarrow> Actions \<Rightarrow> frame list \<Rightarrow> Actions \<times> out list \<times> loop_exit" where
  "while_true fps verbose frame_time frame_count s [] = (s, [], Running)"
| "while_true fps verbose frame_time frame_count s (f # fs) =
     (case run_policy f s of
        (s1, o1, Some e) \<Rightarrow> (s1, o1, Raise e)
      | (s1, o1, None) \<Rightarrow>
          (let (s2, e2) = flush s1;
               frame_count = frame_count + 1
           in case after_flush f of
                Some e \<Rightarrow> (s2, o1 @ map Dev e2, Raise e)
              | None \<Rightarrow>
                  (let o3 = log_and_pace fps verbose frame_time frame_count f;
                       (s', os, x) = while_true fps verbose frame_time frame_count s2 fs
                   in (s', o1 @ map Dev e2 @ o3 @ os, x))))"



text \<open>
  The \<open>while not stop_event.is_set()\<close> loop of \<open>run_script_timed\<close>; the result also
  carries \<open>frame_count\<close>.
\<close>

fun while_not_stopped ::
  "int \<Rightarrow> bool \<Rightarrow> real \<Rightarrow> int \<Rightarrow> Actions \<Rightarrow> frame list \<Rightarrow>
     Actions \<times> out list \<times> int \<times> loop_exit" where
  "while_not_stopped fps verbose frame_time frame_count s [] = (s, [], frame_count, Running)"
| "while_not_stopped fps verbose frame_time frame_count s (f # fs) =
     (if stop_set f then (s, [], frame_count, Stopped)
      else
        (case run_policy f s of
           (s1, o1, Some e) \<Rightarrow> (s1, o1, frame_count, Raise e)
         | (s1, o1, None) \<Rightarrow>
             (let (s2, e2) = flush s1;
                  frame_count = frame_count + 1
              in case after_flush f of
                   Some e \<Rightarrow> (s2, o1 @ map Dev e2, frame_count, Raise e)
                 | None \<Rightarrow>
                     (let o3 = log_and_pace fps verbose frame_time frame_count f;
                          (s', os, n, x) = while_not_stopped fps verbose frame_time frame_count s2 fs
                      in (s', o1 @ map Dev e2 @ o3 @ os, n, x)))))"



text \<open>
  The device as the events leave it: the set of keys that are down and whether the mouse
  button is down. \<open>press\<close> is a key-down followed by a key-up.
\<close>

fun device_event :: "event \<Rightarrow> string fset \<times> bool \<Rightarrow> string fset \<times> bool" where
  "device_event (KeyDown k) (ks, m) = (finsert k ks, m)"
| "device_event (KeyUp k) (ks, m) = (ks |-| {|k|}, m)"
| "device_event (Press k) (ks, m) = (ks |-| {|k|}, m)"
| "device_event MouseDown (ks, m) = (ks, True)"
| "device_event MouseUp (ks, m) = (ks, False)"
| "device_event _ (ks, m) = (ks, m)"

fun device_out :: "out \<Rightarrow> string fset \<times> bool \<Rightarrow> string fset \<times> bool" where
  "device_out (Dev e) d = device_event e d"
| "device_out _ d = d"

definition device_after :: "out list \<Rightarrow> string fset \<times> bool \<Rightarrow> string fset \<times> bool" where
  "device_after os d = fold device_out os d"

text \<open>The buffer's own record of the device: \<open>_held_keys\<close> and \<open>_mouse_is_down\<close>.\<close>

definition mirror :: "Actions \<Rightarrow> string fset \<times> bool" where
  "mirror s = (held_keys s, mouse_is_down s)"

section \<open>The multi-template tracker (2dgametest/simple\_match.py)\<close>

text \<open>
  OpenCV, numpy and mss are external. Images are values of an arbitrary type \<open>'img\<close>, and
  the library calls the tracker makes are the fields of an environment:
  \<open>matchTemplate_minMaxLoc frame tpl method\<close> is \<open>cv.minMaxLoc(cv.matchTemplate(frame, tpl,
  method))\<close>, that is \<open>(min_val, max_val, min_loc, max_loc)\<close>; \<open>crop img y0 y1 x0 x1\<close> is the
  slice \<open>img[y0:y1, x0:x1]\<close>; \<open>shape img\<close> is \<open>(rows, columns)\<close>; \<open>grab n\<close> is what the
  \<open>n\<close>-th screen capture of the run returns (as BGR). Python floats are modelled as
  reals.
\<close>

datatype cv_method =
  TM_SQDIFF | TM_SQDIFF_NORMED | TM_CCORR | TM_CCORR_NORMED | TM_CCOEFF | TM_CCOEFF_NORMED

record 'img env =
  matchTemplate_minMaxLoc :: "'img \<Rightarrow> 'img \<Rightarrow> cv_method \<Rightarrow> real \<times> real \<times> (int \<times> int) \<times> (int \<times> int)"
  crop :: "'img \<Rightarrow> int \<Rightarrow> int \<Rightarrow> int \<Rightarrow> int \<Rightarrow> 'img"
  shape :: "'img \<Rightarrow> int \<times> int"
  cvtColor_BGR2GRAY :: "'img \<Rightarrow> 'img"
  resize :: "'img \<Rightarrow> int \<times> int \<Rightarrow> 'img"
  grab :: "nat \<Rightarrow> 'img"

datatype error = AssertionError | ZeroDivisionError | IndexError

text \<open>Python's \<open>int(x)\<close> on a float: truncation towards zero.\<close>

definition py_int :: "real \<Rightarrow> int" where
  "py_int r = (if r \<ge> 0 then \<lfloor>r\<rfloor> else \<lceil>r\<rceil>)"

record MatchResult =
  r_id :: nat
  r_found :: bool
  r_x :: int
  r_y :: int
  r_w :: int
  r_h :: int
  r_score :: real
  r_method :: string

record 'img TemplateState =
  t_id :: nat
  t_path :: string
  tpl :: 'img
  tpl_gray :: 'img
  tpl_small :: 'img
  t_w :: int
  t_h :: int
  w_small :: int
  h_small :: int
  last_pos :: "(int \<times> int) option"
  t_found :: bool

text \<open>The configuration fields of \<open>MultiTemplateTrackerCV\<close>, as \<open>__init__\<close> sets them.\<close>

record tracker_cfg =
  confidence :: real
  search_margin :: int
  tm_method :: cv_method
  use_grayscale :: bool
  downscale_factor :: real
  use_pyramid :: bool
  skip_full_scan :: bool
  screen_w :: int
  screen_h :: int
  screen_w_small :: int
  screen_h_small :: int

text \<open>
  The configuration part of \<open>__init__\<close>, from its arguments and the monitor's width and
  height.
\<close>

definition init_cfg ::
  "real \<Rightarrow> int \<Rightarrow> cv_method \<Rightarrow> bool \<Rightarrow> real \<Rightarrow> bool \<Rightarrow> int \<Rightarrow> int \<Rightarrow> tracker_cfg" where
  "init_cfg conf margin m gray factor skip mon_w mon_h =
     \<lparr>confidence = conf, search_margin = margin, tm_method = m, use_grayscale = gray,
      downscale_factor = factor, use_pyramid = (factor < 1),
      skip_full_scan = (skip \<and> factor < 1),
      screen_w = mon_w, screen_h = mon_h,
      screen_w_small = py_int (real_of_int mon_w * factor),
      screen_h_small = py_int (real_of_int mon_h * factor)\<rparr>"

text \<open>
  The search stages. Every call of \<open>_best_match\<close> is recorded with the stage that makes
  it, the region it searches and the template it searches for.
\<close>

datatype tier = Heuristic | PyramidCoarse | PyramidRefine | FullScan

datatype 'img call = BestMatch tier 'img 'img

definition best_match :: "'img env \<Rightarrow> 'img \<Rightarrow> 'img \<Rightarrow> cv_method \<Rightarrow> real \<times> int \<times> int" where
  "best_match cv frame tp m =
     (let (min_val, max_val, min_loc, max_loc) = matchTemplate_minMaxLoc cv frame tp m
      in if m = TM_SQDIFF \<or> m = TM_SQDIFF_NORMED
         then (1 - min_val, fst min_loc, snd min_loc)
         else (max_val, fst max_loc, snd max_loc))"

definition found_result :: "'img TemplateState \<Rightarrow> int \<Rightarrow> int \<Rightarrow> real \<Rightarrow> string \<Rightarrow> MatchResult" where
  "found_result t x y score m =
     \<lparr>r_id = t_id t, r_found = True, r_x = x, r_y = y, r_w = t_w t, r_h = t_h t,
      r_score = score, r_method = m\<rparr>"

definition not_found_result :: "'img TemplateState \<Rightarrow> MatchResult" where
  "not_found_result t =
     \<lparr>r_id = t_id t, r_found = False, r_x = 0, r_y = 0, r_w = t_w t, r_h = t_h t,
      r_score = 0, r_method = ''Not Found''\<rparr>"

text \<open>
  The window around \<open>last_pos\<close>, and the refinement window around a coarse hit
  \<open>(x_small, y_small)\<close>, each as \<open>(roi_x, roi_y, roi_w, roi_h)\<close>. The second divides by
  \<open>downscale_factor\<close>.
\<close>

definition heuristic_window :: "tracker_cfg \<Rightarrow> 'img TemplateState \<Rightarrow> int \<times> int \<Rightarrow> int \<times> int \<times> int \<times> int" where
  "heuristic_window c t p =
     (let (lx, ly) = p;
          roi_x = max 0 (lx - search_margin c);
          roi_y = max 0 (ly - search_margin c);
          roi_w = min (search_margin c * 2 + t_w t) (screen_w c - roi_x);
          roi_h = min (search_margin c * 2 + t_h t) (screen_h c - roi_y)
      in (roi_x, roi_y, roi_w, roi_h))"

definition refine_window :: "tracker_cfg \<Rightarrow> 'img TemplateState \<Rightarrow> int \<Rightarrow> int \<Rightarrow> int \<times> int \<times> int \<times> int" where
  "refine_window c t x_small y_small =
     (let scale = 1 / downscale_factor c;
          x_full = py_int (real_of_int x_small * scale);
          y_full = py_int (real_of_int y_small * scale);
          refine_margin = max 20 (py_int (50 / downscale_factor c));
          roi_x = max 0 (x_full - refine_margin);
          roi_y = max 0 (y_full - refine_margin);
          roi_w = min (t_w t + refine_margin * 2) (screen_w c - roi_x);
          roi_h = min (t_h t + refine_margin * 2) (screen_h c - roi_y)
      in (roi_x, roi_y, roi_w, roi_h))"

text \<open>
  The three stages of \<open>_match_one\<close>, each giving the result it returns, if it returns
  one, and the calls of \<open>_best_match\<close> it has made.
\<close>

definition heuristic_tier ::
  "tracker_cfg \<Rightarrow> 'img env \<Rightarrow> 'img TemplateState \<Rightarrow> 'img \<Rightarrow> 'img \<Rightarrow> MatchResult option \<times> 'img call list" where
  "heuristic_tier c cv t frame tp =
     (case last_pos t of
        None \<Rightarrow> (None, [])
      | Some p \<Rightarrow>
          (let (roi_x, roi_y, roi_w, roi_h) = heuristic_window c t p
           in if roi_w \<ge> t_w t \<and> roi_h \<ge> t_h t
              then
                (let roi = crop cv frame roi_y (roi_y + roi_h) roi_x (roi_x + roi_w);
                     (score, x, y) = best_match cv roi tp (tm_method c)
                 in (if score \<ge> confidence c
                     then Some (found_result t (roi_x + x) (roi_y + y) score ''Heuristic'')
                     else None,
                     [BestMatch Heuristic roi tp]))
              else (None, [])))"

definition pyramid_tier ::
  "tracker_cfg \<Rightarrow> 'img env \<Rightarrow> 'img TemplateState \<Rightarrow> 'img \<Rightarrow> 'img \<Rightarrow> 'img option \<Rightarrow>
     error + MatchResult option \<times> 'img call list" where
  "pyramid_tier c cv t frame tp frame_small =
     (case frame_small of
        None \<Rightarrow> Inr (None, [])
      | Some small \<Rightarrow>
          if \<not> use_pyramid c then Inr (None, [])
          else if snd (shape cv small) \<ge> w_small t \<and> fst (shape cv small) \<ge> h_small t
          then
            (let (score_small, x_small, y_small) = best_match cv small (tpl_small t) (tm_method c);
                 coarse = BestMatch PyramidCoarse small (tpl_small t)
             in if score_small \<ge> confidence c * 0.9
                then
                  if downscale_factor c = 0 then Inl ZeroDivisionError
                  else
                    (let (roi_x, roi_y, roi_w, roi_h) = refine_window c t x_small y_small
                     in if roi_w \<ge> t_w t \<and> roi_h \<ge> t_h t
                        then
                          (let roi = crop cv frame roi_y (roi_y + roi_h) roi_x (roi_x + roi_w);
                               (score, x, y) = best_match cv roi tp (tm_method c)
                           in Inr (if score \<ge> confidence c
                                   then Some (found_result t (roi_x + x) (roi_y + y) score ''Pyramid'')
                                   else None,
                                   [coarse, BestMatch PyramidRefine roi tp]))
                        else Inr (None, [coarse]))
                else Inr (None, [coarse]))
          else Inr (None, []))"

definition full_scan_tier ::
  "tracker_cfg \<Rightarrow> 'img env \<Rightarrow> 'img TemplateState \<Rightarrow> 'img \<Rightarrow> 'img \<Rightarrow> MatchResult option \<times> 'img call list" where
  "full_scan_tier c cv t frame tp =
     (if \<not> skip_full_scan c
      then
        if snd (shape cv frame) \<ge> t_w t \<and> fst (shape cv frame) \<ge> t_h t
        then
          (let (score, x, y) = best_match cv frame tp (tm_method c)
           in (if score \<ge> confidence c then Some (found_result t x y score ''Full Scan'') else None,
               [BestMatch FullScan frame tp]))
        else (None, [])
      else (None, []))"

text \<open>
  \<open>_match_one\<close>: the channel representation is picked (the \<open>assert\<close> fails when the
  grayscale frame is wanted and missing), then the stages run in order, each one only if
  no earlier one has returned.
\<close>

definition match_one ::
  "tracker_cfg \<Rightarrow> 'img env \<Rightarrow> 'img TemplateState \<Rightarrow> 'img \<Rightarrow> 'img option \<Rightarrow> 'img option \<Rightarrow>
     error + MatchResult \<times> 'img call list" where
  "match_one c cv t frame_bgr frame_gray frame_small =
     (let (frame, tp) = (if use_grayscale c then (frame_gray, tpl_gray t)
                         else (Some frame_bgr, tpl t))
      in case frame of
           None \<Rightarrow> Inl AssertionError
         | Some frame \<Rightarrow>
             (case heuristic_tier c cv t frame tp of
                (Some r, cs1) \<Rightarrow> Inr (r, cs1)
              | (None, cs1) \<Rightarrow>
                  (case pyramid_tier c cv t frame tp frame_small of
                     Inl e \<Rightarrow> Inl e
                   | Inr (Some r, cs2) \<Rightarrow> Inr (r, cs1 @ cs2)
                   | Inr (None, cs2) \<Rightarrow>
                       (case full_scan_tier c cv t frame tp of
                          (Some r, cs3) \<Rightarrow> Inr (r, cs1 @ cs2 @ cs3)
                        | (None, cs3) \<Rightarrow> Inr (not_found_result t, cs1 @ cs2 @ cs3)))))"

text \<open>Observers of the recorded calls: the stage, the score the call returned, the tag.\<close>

fun call_tier :: "'img call \<Rightarrow> tier" where
  "call_tier (BestMatch tr region tp) = tr"

fun call_score :: "tracker_cfg \<Rightarrow> 'img env \<Rightarrow> 'img call \<Rightarrow> real" where
  "call_score c cv (BestMatch tr region tp) = fst (best_match cv region tp (tm_method c))"

fun tier_rank :: "tier \<Rightarrow> nat" where
  "tier_rank Heuristic = 0"
| "tier_rank PyramidCoarse = 1"
| "tier_rank PyramidRefine = 2"
| "tier_rank FullScan = 3"

fun tier_tag :: "tier \<Rightarrow> string" where
  "tier_tag Heuristic = ''Heuristic''"
| "tier_tag PyramidCoarse = ''Pyramid''"
| "tier_tag PyramidRefine = ''Pyramid''"
| "tier_tag FullScan = ''Full Scan''"

text \<open>
  The threshold a call's score is compared with: the primary one, except for the coarse
  pyramid call.
\<close>

fun call_threshold :: "tracker_cfg \<Rightarrow> tier \<Rightarrow> real" where
  "call_threshold c PyramidCoarse = confidence c * 0.9"
| "call_threshold c _ = confidence c"

text \<open>
  The tracker object: configuration, templates, whether a thread pool was created
  (\<open>max_workers > 0\<close>), the cached frame and the number of screen captures made so far.
\<close>

record 'img tracker =
  cfg :: tracker_cfg
  templates :: "'img TemplateState list"
  executor :: bool
  last_frame :: "'img option"
  grabs :: nat

text \<open>
  What one \<open>find_all\<close> does, in order: the capture, the conversion to grayscale, the
  downscaling, and for every template the call of \<open>_match_one\<close> with its template number,
  its three frame arguments and the \<open>_best_match\<close> calls it made.
\<close>

datatype 'img tev =
    Grab 'img
  | CvtGray 'img
  | Resize 'img "int \<times> int"
  | MatchOne nat 'img "'img option" "'img option" "'img call list"

text \<open>
  The list of results, as the comprehension builds it. With the executor the futures are
  submitted and collected in the order of the templates, and \<open>_match_one\<close> writes no
  shared state, so the pool gives the same list, and the first exception in that order is
  the one raised: \<open>find_all\<close> below uses the same function in both branches. The order
  in which the pool's threads interleave is not modelled.
\<close>

fun match_all ::
  "tracker_cfg \<Rightarrow> 'img env \<Rightarrow> 'img TemplateState list \<Rightarrow> 'img \<Rightarrow> 'img option \<Rightarrow> 'img option \<Rightarrow>
     error + (MatchResult \<times> 'img tev) list" where
  "match_all c cv [] frame_bgr frame_gray frame_small = Inr []"
| "match_all c cv (t # ts) frame_bgr frame_gray frame_small =
     (case match_one c cv t frame_bgr frame_gray frame_small of
        Inl e \<Rightarrow> Inl e
      | Inr (r, cs) \<Rightarrow>
          (case match_all c cv ts frame_bgr frame_gray frame_small of
             Inl e \<Rightarrow> Inl e
           | Inr rs \<Rightarrow> Inr ((r, MatchOne (t_id t) frame_bgr frame_gray frame_small cs) # rs)))"

text \<open>The loop that updates the per-template state; \<open>self.templates[r.id]\<close> can raise.\<close>

fun update_state :: "'img TemplateState list \<Rightarrow> MatchResult list \<Rightarrow> error + 'img TemplateState list" where
  "update_state ts [] = Inr ts"
| "update_state ts (r # rs) =
     (if r_id r < length ts
      then update_state
             (ts[r_id r := (ts ! r_id r)\<lparr>last_pos := (if r_found r then Some (r_x r, r_y r) else None),
                                         t_found := r_found r\<rparr>]) rs
      else Inl IndexError)"

definition find_all ::
  "'img env \<Rightarrow> 'img tracker \<Rightarrow> error + 'img tracker \<times> MatchResult list \<times> 'img tev list" where
  "find_all cv tr =
     (let c = cfg tr;
          frame_bgr = grab cv (grabs tr);
          tr1 = tr\<lparr>grabs := grabs tr + 1, last_frame := Some frame_bgr\<rparr>;
          gray = cvtColor_BGR2GRAY cv frame_bgr;
          frame_gray = (if use_grayscale c then Some gray else None);
          e1 = (if use_grayscale c then [CvtGray frame_bgr] else []);
          size_small = (screen_w_small c, screen_h_small c);
          source = (if use_grayscale c then gray else frame_bgr);
          frame_small = (if use_pyramid c then Some (resize cv source size_small) else None);
          e2 = (if use_pyramid c then [Resize source size_small] else [])
      in case (if executor tr1
               then match_all c cv (templates tr1) frame_bgr frame_gray frame_small
               else match_all c cv (templates tr1) frame_bgr frame_gray frame_small) of
           Inl e \<Rightarrow> Inl e
         | Inr rs \<Rightarrow>
             (case update_state (templates tr1) (map fst rs) of
                Inl e \<Rightarrow> Inl e
              | Inr ts \<Rightarrow> Inr (tr1\<lparr>templates := ts\<rparr>, map fst rs, Grab frame_bgr # e1 @ e2 @ map snd rs)))"

text \<open>The template list as \<open>__init__\<close> builds it: template \<open>i\<close> has \<open>id = i\<close>.\<close>

definition ids_enumerated :: "'img TemplateState list \<Rightarrow> bool" where
  "ids_enumerated ts \<longleftrightarrow> map t_id ts = [0..<length ts]"

text \<open>Observers of the log of a cycle.\<close>

fun is_grab :: "'img tev \<Rightarrow> bool" where
  "is_grab (Grab _) = True"
| "is_grab _ = False"

fun is_resize :: "'img tev \<Rightarrow> bool" where
  "is_resize (Resize _ _) = True"
| "is_resize _ = False"

fun is_match_one :: "'img tev \<Rightarrow> bool" where
  "is_match_one (MatchOne _ _ _ _ _) = True"
| "is_match_one _ = False"

fun match_args :: "'img tev \<Rightarrow> ('img \<times> 'img option \<times> 'img option) option" where
  "match_args (MatchOne i fb fg fs cs) = Some (fb, fg, fs)"
| "match_args _ = None"

fun match_calls :: "nat \<Rightarrow> 'img tev \<Rightarrow> 'img call list" where
  "match_calls i (MatchOne j fb fg fs cs) = (if i = j then cs else [])"
| "match_calls i _ = []"

fun call_region :: "'img call \<Rightarrow> 'img" where
  "call_region (BestMatch tr region tp) = region"

fun match_id :: "'img tev \<Rightarrow> nat option" where
  "match_id (MatchOne i fb fg fs cs) = Some i"
| "match_id _ = None"

text \<open>The full-resolution frame and template that \<open>_match_one\<close> picks.\<close>

definition picked_frame :: "tracker_cfg \<Rightarrow> 'img \<Rightarrow> 'img option \<Rightarrow> 'img option" where
  "picked_frame c frame_bgr frame_gray = (if use_grayscale c then frame_gray else Some frame_bgr)"

definition picked_tpl :: "tracker_cfg \<Rightarrow> 'img TemplateState \<Rightarrow> 'img" where
  "picked_tpl c t = (if use_grayscale c then tpl_gray t else tpl t)"

text \<open>The three frame arguments of a cycle that starts in tracker state \<open>tr\<close>.\<close>

definition cycle_frame :: "'img env \<Rightarrow> 'img tracker \<Rightarrow> 'img" where
  "cycle_frame cv tr = grab cv (grabs tr)"

definition cycle_gray :: "'img env \<Rightarrow> 'img tracker \<Rightarrow> 'img option" where
  "cycle_gray cv tr =
     (if use_grayscale (cfg tr) then Some (cvtColor_BGR2GRAY cv (cycle_frame cv tr)) else None)"

definition cycle_small :: "'img env \<Rightarrow> 'img tracker \<Rightarrow> 'img option" where
  "cycle_small cv tr =
     (if use_pyramid (cfg tr)
      then Some (resize cv (if use_grayscale (cfg tr) then cvtColor_BGR2GRAY cv (cycle_frame cv tr)
                            else cycle_frame cv tr)
                  (screen_w_small (cfg tr), screen_h_small (cfg tr)))
      else None)"

text \<open>The state of a template after a cycle that gave result \<open>r\<close> for it.\<close>

definition updated :: "'img TemplateState \<Rightarrow> MatchResult \<Rightarrow> 'img TemplateState" where
  "updated t r = t\<lparr>last_pos := (if r_found r then Some (r_x r, r_y r) else None), t_found := r_found r\<rparr>"

section \<open>The shared perception store (game\_agent/game\_state.py)\<close>

text \<open>
  The values stored in an entity's dictionary, and Python's truth test on them.
\<close>

datatype pyval = PInt int | PBool bool | PStr string | PFloat real | PNone

fun truthy :: "pyval \<Rightarrow> bool" where
  "truthy (PInt n) = (n \<noteq> 0)"
| "truthy (PBool b) = b"
| "truthy (PStr s) = (s \<noteq> [])"
| "truthy (PFloat r) = (r \<noteq> 0)"
| "truthy PNone = False"

text \<open>
  Dictionaries are objects, and \<open>dict(d)\<close> copies one level only, so the store is modelled
  on a heap. An entity's dictionary (\<open>{"x": ..., "y": ..., "found": ..., ...}\<close>) lives at an
  address in \<open>dicts\<close>; a table from names to references to such dictionaries
  (\<open>self._entities\<close>, or a dictionary returned to a reader) lives at an address in
  \<open>tables\<close>; \<open>fresh\<close> is the next unused address.
\<close>

type_synonym addr = nat
type_synonym entity = "string \<rightharpoonup> pyval"
type_synonym table = "string \<rightharpoonup> addr"

record heap =
  dicts :: "addr \<Rightarrow> entity"
  tables :: "addr \<Rightarrow> table"
  fresh :: addr

text \<open>The \<open>GameState\<close> object: the reference held in \<open>self._entities\<close>.\<close>

record GameState =
  entities :: addr

text \<open>
  What an operation does to the lock and to the table of the store, in order:
  \<open>with self._lock\<close> acquires on entry and releases on exit.
\<close>

datatype gs_event = Acquire | Release | ReadTable addr | WriteTable addr | NewDict addr | NewTable addr

definition init_heap :: heap where
  "init_heap = \<lparr>dicts = (\<lambda>a. Map.empty), tables = (\<lambda>a. Map.empty), fresh = 1\<rparr>"

definition init_game_state :: GameState where
  "init_game_state = \<lparr>entities = 0\<rparr>"

text \<open>
  \<open>update_entity\<close>: a new dictionary is built from the arguments (later keys win in a
  dictionary display, so \<open>extra\<close> is added last) and stored under \<open>name\<close>.
\<close>

definition new_entity :: "int \<Rightarrow> int \<Rightarrow> bool \<Rightarrow> entity \<Rightarrow> entity" where
  "new_entity x y found extra = [''x'' \<mapsto> PInt x, ''y'' \<mapsto> PInt y, ''found'' \<mapsto> PBool found] ++ extra"

definition update_entity ::
  "GameState \<Rightarrow> string \<Rightarrow> int \<Rightarrow> int \<Rightarrow> bool \<Rightarrow> entity \<Rightarrow> heap \<Rightarrow> heap \<times> gs_event list" where
  "update_entity gs name x y found extra h =
     (let a = fresh h;
          h1 = h\<lparr>dicts := (dicts h)(a := new_entity x y found extra), fresh := a + 1\<rparr>;
          h2 = h1\<lparr>tables := (tables h1)(entities gs := (tables h1 (entities gs))(name \<mapsto> a))\<rparr>
      in (h2, [Acquire, NewDict a, WriteTable (entities gs), Release]))"

text \<open>\<open>get_entity\<close> returns the stored reference itself, or \<open>None\<close>.\<close>

definition get_entity :: "GameState \<Rightarrow> string \<Rightarrow> heap \<Rightarrow> addr option \<times> gs_event list" where
  "get_entity gs name h =
     (tables h (entities gs) name, [Acquire, ReadTable (entities gs), Release])"

text \<open>\<open>get_all_entities\<close>: \<open>dict(self._entities)\<close>, a new table with the same references.\<close>

definition get_all_entities :: "GameState \<Rightarrow> heap \<Rightarrow> addr \<times> heap \<times> gs_event list" where
  "get_all_entities gs h =
     (let a = fresh h;
          h1 = h\<lparr>tables := (tables h)(a := tables h (entities gs)), fresh := a + 1\<rparr>
      in (a, h1, [Acquire, ReadTable (entities gs), NewTable a, Release]))"

text \<open>
  \<open>get_found_entities\<close>: a new table with the references of the entries whose
  \<open>v.get("found", False)\<close> is true.
\<close>

definition is_found :: "entity \<Rightarrow> bool" where
  "is_found v = truthy (case v ''found'' of None \<Rightarrow> PBool False | Some b \<Rightarrow> b)"

definition get_found_entities :: "GameState \<Rightarrow> heap \<Rightarrow> addr \<times> heap \<times> gs_event list" where
  "get_found_entities gs h =
     (let a = fresh h;
          found_only = (\<lambda>k. case tables h (entities gs) k of
                               None \<Rightarrow> None
                             | Some d \<Rightarrow> if is_found (dicts h d) then Some d else None);
          h1 = h\<lparr>tables := (tables h)(a := found_only), fresh := a + 1\<rparr>
      in (a, h1, [Acquire, ReadTable (entities gs), NewTable a, Release]))"

text \<open>
  What a holder of the table reference \<open>a\<close> sees in heap \<open>h\<close>: for every name, the
  contents of the dictionary the table refers to.
\<close>

definition view :: "heap \<Rightarrow> addr \<Rightarrow> string \<rightharpoonup> entity" where
  "view h a = (\<lambda>name. map_option (dicts h) (tables h a name))"

text \<open>
  Heaps as Python builds them: the store's table is allocated, and every reference in a
  table is to an allocated dictionary.
\<close>

definition heap_ok :: "heap \<Rightarrow> GameState \<Rightarrow> bool" where
  "heap_ok h gs \<longleftrightarrow>
     entities gs < fresh h \<and> (\<forall>t name d. tables h t name = Some d \<longrightarrow> d < fresh h)"

text \<open>A sequence of \<open>update_entity\<close> calls, each given by its arguments.\<close>

fun update_all :: "GameState \<Rightarrow> (string \<times> int \<times> int \<times> bool \<times> entity) list \<Rightarrow> heap \<Rightarrow> heap" where
  "update_all gs [] h = h"
| "update_all gs ((name, x, y, found, extra) # us) h =
     update_all gs us (fst (update_entity gs name x y found extra h))"

text \<open>
  A trace that stays under the lock: it begins by acquiring it, ends by releasing it, and
  neither acquires nor releases in between.
\<close>

fun under_lock :: "gs_event list \<Rightarrow> bool" where
  "under_lock (Acquire # rest) =
     (rest \<noteq> [] \<and> last rest = Release \<and> Acquire \<notin> set (butlast rest) \<and> Release \<notin> set (butlast rest))"
| "under_lock _ = False"

section \<open>The tracker service (game\_agent/tracker\_service.py)\<close>

text \<open>
  The body of the \<open>for i, result in enumerate(results)\<close> loop of \<open>_tracking_loop\<close>, from
  index \<open>i\<close>: \<open>names\<close> are the names in \<open>self.templates\<close>, and \<open>self.templates[i]\<close> can
  raise.
\<close>

definition published_extra :: "MatchResult \<Rightarrow> entity" where
  "published_extra r =
     [''method'' \<mapsto> PStr (r_method r), ''width'' \<mapsto> PInt (r_w r), ''height'' \<mapsto> PInt (r_h r)]"

fun publish :: "GameState \<Rightarrow> string list \<Rightarrow> nat \<Rightarrow> MatchResult list \<Rightarrow> heap \<Rightarrow> error + heap" where
  "publish gs names i [] h = Inr h"
| "publish gs names i (r # rs) h =
     (if i < length names
      then publish gs names (i + 1) rs
             (fst (update_entity gs (names ! i) (r_x r) (r_y r) (r_found r) (published_extra r) h))
      else Inl IndexError)"

text \<open>One iteration of the tracking loop: \<open>find_all\<close>, then the publication of its results.\<close>

definition tracking_cycle ::
  "'img env \<Rightarrow> GameState \<Rightarrow> string list \<Rightarrow> 'img tracker \<Rightarrow> heap \<Rightarrow>
     error + 'img tracker \<times> MatchResult list \<times> heap" where
  "tracking_cycle cv gs names tr h =
     (case find_all cv tr of
        Inl e \<Rightarrow> Inl e
      | Inr (tr', rs, lg) \<Rightarrow>
          (case publish gs names 0 rs h of
             Inl e \<Rightarrow> Inl e
           | Inr h' \<Rightarrow> Inr (tr', rs, h')))"

text \<open>The dictionary the service stores for a result.\<close>

definition published_entity :: "MatchResult \<Rightarrow> entity" where
  "published_entity r = new_entity (r_x r) (r_y r) (r_found r) (published_extra r)"

section \<open>A worked example\<close>

text \<open>
  A symbolic screen for evaluating the tracker: images are terms built by the library
  calls, and a 50 by 50 target, the picture of template 0, sits at (800, 400) in the first
  capture, at (820, 400) in the second, and is gone afterwards. The example matcher scores
  0.92 for template 0 where the target lies wholly inside the searched region, and 0.3
  elsewhere and for every other template.
\<close>

datatype ex_img =
    Screen nat
  | Template nat
  | Gray ex_img
  | Resized ex_img int int
  | Crop ex_img int int int int

fun ex_target :: "ex_img \<Rightarrow> (int \<times> int) option" where
  "ex_target (Screen n) = (if n = 0 then Some (800, 400) else if n = 1 then Some (820, 400) else None)"
| "ex_target (Template n) = None"
| "ex_target (Gray i) = ex_target i"
| "ex_target (Resized i w h) = (case ex_target i of None \<Rightarrow> None | Some (x, y) \<Rightarrow> Some (x div 2, y div 2))"
| "ex_target (Crop i y0 y1 x0 x1) =
     (case ex_target i of
        None \<Rightarrow> None
      | Some (x, y) \<Rightarrow>
          if x0 \<le> x \<and> x + 50 \<le> x1 \<and> y0 \<le> y \<and> y + 50 \<le> y1 then Some (x - x0, y - y0) else None)"

fun ex_base :: "ex_img \<Rightarrow> nat" where
  "ex_base (Template n) = n"
| "ex_base (Gray i) = ex_base i"
| "ex_base (Resized i w h) = ex_base i"
| "ex_base (Crop i y0 y1 x0 x1) = ex_base i"
| "ex_base (Screen n) = n"

fun ex_shape :: "ex_img \<Rightarrow> int \<times> int" where
  "ex_shape (Screen n) = (1080, 1920)"
| "ex_shape (Template n) = (50, 50)"
| "ex_shape (Gray i) = ex_shape i"
| "ex_shape (Resized i w h) = (h, w)"
| "ex_shape (Crop i y0 y1 x0 x1) = (y1 - y0, x1 - x0)"

definition ex_cv :: "ex_img env" where
  "ex_cv =
     \<lparr>matchTemplate_minMaxLoc =
        (\<lambda>frame tp m. case ex_target frame of
                         None \<Rightarrow> (0, 0.3, (0, 0), (0, 0))
                       | Some p \<Rightarrow> if ex_base tp = 0 then (0, 0.92, (0, 0), p)
                                   else (0, 0.3, (0, 0), (0, 0))),
      crop = Crop,
      shape = ex_shape,
      cvtColor_BGR2GRAY = Gray,
      resize = (\<lambda>img (w, h). Resized img w h),
      grab = Screen\<rparr>"

definition ex_cfg :: tracker_cfg where
  "ex_cfg = init_cfg 0.85 150 TM_CCOEFF_NORMED True 0.5 True 1920 1080"

definition ex_template :: "ex_img TemplateState" where
  "ex_template =
     \<lparr>t_id = 0, t_path = ''slime/reference_crop.png'', tpl = Template 0,
      tpl_gray = Gray (Template 0), tpl_small = Resized (Gray (Template 0)) 25 25,
      t_w = 50, t_h = 50, w_small = 25, h_small = 25, last_pos = None, t_found = False\<rparr>"

definition ex_template2 :: "ex_img TemplateState" where
  "ex_template2 =
     \<lparr>t_id = 1, t_path = ''bat/reference_crop.png'', tpl = Template 1,
      tpl_gray = Gray (Template 1), tpl_small = Resized (Gray (Template 1)) 20 15,
      t_w = 40, t_h = 30, w_small = 20, h_small = 15, last_pos = None, t_found = False\<rparr>"

text \<open>
  The tracker with both templates after \<open>n\<close> captures, template 0 last seen at \<open>p\<close>
  (if at all) and template 1 not seen.
\<close>

definition ex_state :: "(int \<times> int) option \<Rightarrow> nat \<Rightarrow> ex_img tracker" where
  "ex_state p n =
     \<lparr>cfg = ex_cfg,
      templates = [ex_template\<lparr>last_pos := p, t_found := (p \<noteq> None)\<rparr>, ex_template2],
      executor = True,
      last_frame = (if n = 0 then None else Some (Screen (n - 1))),
      grabs = n\<rparr>"

definition ex_tracker :: "ex_img tracker" where
  "ex_tracker = ex_state None 0"

section \<open>Properties of the action-intent buffer\<close>

lemma call_action_frame:
  "held_keys (call_action d s) = held_keys s"
  "mouse_is_down (call_action d s) = mouse_is_down s"
  by (cases d; simp add: move_left_def move_right_def fly_up_def move_down_def
      move_down_fast_def attack_at_def dash_left_def dash_right_def)+

lemma call_action_desired:
  "desired_keys (call_action d s) = desired_keys s |\<union>| desired_keys (call_action d init_actions)"
  by (cases d; simp add: move_left_def move_right_def fly_up_def move_down_def
      move_down_fast_def attack_at_def dash_left_def dash_right_def init_actions_def)

lemma call_action_dashes:
  "queued_dashes (call_action d s) = queued_dashes s @ queued_dashes (call_action d init_actions)"
  by (cases d; simp add: move_left_def move_right_def fly_up_def move_down_def
      move_down_fast_def attack_at_def dash_left_def dash_right_def init_actions_def)

lemma policy_calls_held [simp]: "held_keys (policy_calls ds s) = held_keys s"
  unfolding policy_calls_def by (induction ds arbitrary: s) (simp_all add: call_action_frame)

lemma policy_calls_mouse [simp]: "mouse_is_down (policy_calls ds s) = mouse_is_down s"
  unfolding policy_calls_def by (induction ds arbitrary: s) (simp_all add: call_action_frame)

lemma fold_desired:
  "desired_keys (fold call_action ds s) =
     desired_keys s |\<union>| desired_keys (fold call_action ds init_actions)"
proof (induction ds arbitrary: s)
  case Nil
  show ?case by (simp add: init_actions_def)
next
  case (Cons d ds)
  have "desired_keys (fold call_action (d # ds) s) =
          desired_keys (call_action d s) |\<union>| desired_keys (fold call_action ds init_actions)"
    using Cons.IH [of "call_action d s"] by simp
  moreover have "desired_keys (fold call_action (d # ds) init_actions) =
          desired_keys (call_action d init_actions) |\<union>| desired_keys (fold call_action ds init_actions)"
    using Cons.IH [of "call_action d init_actions"] by simp
  ultimately show ?case
    using call_action_desired [of d s] by auto
qed

lemma fold_dashes:
  "queued_dashes (fold call_action ds s) =
     queued_dashes s @ queued_dashes (fold call_action ds init_actions)"
proof (induction ds arbitrary: s)
  case Nil
  show ?case by (simp add: init_actions_def)
next
  case (Cons d ds)
  have "queued_dashes (fold call_action (d # ds) s) =
          queued_dashes (call_action d s) @ queued_dashes (fold call_action ds init_actions)"
    using Cons.IH [of "call_action d s"] by simp
  moreover have "queued_dashes (fold call_action (d # ds) init_actions) =
          queued_dashes (call_action d init_actions) @ queued_dashes (fold call_action ds init_actions)"
    using Cons.IH [of "call_action d init_actions"] by simp
  ultimately show ?case
    using call_action_dashes [of d s] by auto
qed

lemma policy_calls_desired:
  "desired_keys (policy_calls ds s) = desired_keys s |\<union>| declared_keys ds"
  unfolding policy_calls_def declared_keys_def by (rule fold_desired)

lemma policy_calls_dashes:
  "map dash_key (queued_dashes (policy_calls ds s)) = map dash_key (queued_dashes s) @ dashed_keys ds"
  unfolding policy_calls_def dashed_keys_def by (subst fold_dashes) simp

lemma key_events_append [simp]: "key_events k (xs @ ys) = key_events k xs @ key_events k ys"
  by (simp add: key_events_def)

lemma filter_eq_distinct:
  "distinct xs \<Longrightarrow> filter (\<lambda>x. x = k) xs = (if k \<in> set xs then [k] else [])"
  by (induction xs) auto

lemma distinct_sorted_list_of_fset: "distinct (sorted_list_of_fset S)"
  by (simp add: sorted_list_of_fset.rep_eq)

lemma filter_key_fset:
  "filter (\<lambda>x. x = k) (sorted_list_of_fset S) = (if k |\<in>| S then [k] else [])"
  using filter_eq_distinct [OF distinct_sorted_list_of_fset, of k S] by simp

lemma key_events_KeyUp:
  "key_events k (map KeyUp (sorted_list_of_fset S)) = (if k |\<in>| S then [KeyUp k] else [])"
proof -
  have "key_events k (map KeyUp (sorted_list_of_fset S)) =
          map KeyUp (filter (\<lambda>x. x = k) (sorted_list_of_fset S))"
    by (simp add: key_events_def on_key_def filter_map comp_def)
  then show ?thesis
    by (simp add: filter_key_fset)
qed

lemma key_events_KeyDown:
  "key_events k (map KeyDown (sorted_list_of_fset S)) = (if k |\<in>| S then [KeyDown k] else [])"
proof -
  have "key_events k (map KeyDown (sorted_list_of_fset S)) =
          map KeyDown (filter (\<lambda>x. x = k) (sorted_list_of_fset S))"
    by (simp add: key_events_def on_key_def filter_map comp_def)
  then show ?thesis
    by (simp add: filter_key_fset)
qed

lemma flush_keys_events:
  "key_events k (snd (flush_keys s)) =
     (if k |\<in>| held_keys s \<and> k |\<notin>| desired_keys s then [KeyUp k]
      else if k |\<notin>| held_keys s \<and> k |\<in>| desired_keys s then [KeyDown k] else [])"
  by (simp add: flush_keys_def Let_def key_events_KeyUp key_events_KeyDown)

lemma flush_mouse_events: "key_events k (snd (flush_mouse s)) = []"
  by (simp add: flush_mouse_def Let_def key_events_def on_key_def split: option.splits)

lemma flush_dash_other:
  "k \<notin> set (map dash_key (queued_dashes s)) \<Longrightarrow>
     key_events k (snd (flush_dash s)) = [] \<and>
     (k |\<in>| held_keys (fst (flush_dash s)) \<longleftrightarrow> k |\<in>| held_keys s) \<and>
     desired_keys (fst (flush_dash s)) = desired_keys s"
  by (auto simp: flush_dash_def Let_def key_events_def on_key_def split: list.splits)

lemma flush_step:
  assumes "k \<notin> set (map dash_key (queued_dashes s))"
  shows "key_events k (snd (flush s)) =
     (if k |\<in>| held_keys s \<and> k |\<notin>| desired_keys s then [KeyUp k]
      else if k |\<notin>| held_keys s \<and> k |\<in>| desired_keys s then [KeyDown k] else [])"
    and "held_keys (fst (flush s)) = desired_keys s"
    and "intent_reset (fst (flush s))"
proof -
  obtain s1 e1 where d: "flush_dash s = (s1, e1)" by (cases "flush_dash s")
  obtain s2 e2 where k: "flush_keys s1 = (s2, e2)" by (cases "flush_keys s1")
  obtain s3 e3 where m: "flush_mouse s2 = (s3, e3)" by (cases "flush_mouse s2")
  have f: "flush s = (flush_reset s3, e1 @ e2 @ e3)"
    by (simp add: flush_def d k m)
  from flush_dash_other [OF assms] d
  have d1: "key_events k e1 = []" "k |\<in>| held_keys s1 \<longleftrightarrow> k |\<in>| held_keys s"
    "desired_keys s1 = desired_keys s" by simp_all
  from flush_keys_events [of k s1] k
  have k1: "key_events k e2 =
     (if k |\<in>| held_keys s1 \<and> k |\<notin>| desired_keys s1 then [KeyUp k]
      else if k |\<notin>| held_keys s1 \<and> k |\<in>| desired_keys s1 then [KeyDown k] else [])" by simp
  from flush_mouse_events [of k s2] m have m1: "key_events k e3 = []" by simp
  show "key_events k (snd (flush s)) =
     (if k |\<in>| held_keys s \<and> k |\<notin>| desired_keys s then [KeyUp k]
      else if k |\<notin>| held_keys s \<and> k |\<in>| desired_keys s then [KeyDown k] else [])"
    using f d1 k1 m1 by simp
  have "held_keys s2 = desired_keys s1" using k by (auto simp: flush_keys_def Let_def)
  moreover have "held_keys s3 = held_keys s2" using m
    by (auto simp: flush_mouse_def Let_def split: if_splits)
  ultimately show "held_keys (fst (flush s)) = desired_keys s"
    using f d1 by (simp add: flush_reset_def)
  show "intent_reset (fst (flush s))"
    using f by (simp add: flush_reset_def intent_reset_def)
qed

lemma frame_step:
  assumes "intent_reset s" "k \<notin> set (dashed_keys f)"
  shows "key_events k (snd (flush (policy_calls f s))) =
     (if k |\<in>| held_keys s \<and> k |\<notin>| declared_keys f then [KeyUp k]
      else if k |\<notin>| held_keys s \<and> k |\<in>| declared_keys f then [KeyDown k] else [])"
    and "held_keys (fst (flush (policy_calls f s))) = declared_keys f"
    and "intent_reset (fst (flush (policy_calls f s)))"
proof -
  have q: "k \<notin> set (map dash_key (queued_dashes (policy_calls f s)))"
    using assms by (simp add: policy_calls_dashes intent_reset_def)
  have d: "desired_keys (policy_calls f s) = declared_keys f"
    using assms(1) by (simp add: policy_calls_desired intent_reset_def)
  show "key_events k (snd (flush (policy_calls f s))) =
     (if k |\<in>| held_keys s \<and> k |\<notin>| declared_keys f then [KeyUp k]
      else if k |\<notin>| held_keys s \<and> k |\<in>| declared_keys f then [KeyDown k] else [])"
    using flush_step(1) [OF q] d by simp
  show "held_keys (fst (flush (policy_calls f s))) = declared_keys f"
    using flush_step(2) [OF q] d by simp
  show "intent_reset (fst (flush (policy_calls f s)))"
    using flush_step(3) [OF q] .
qed

lemma held_run:
  "intent_reset s \<Longrightarrow> k |\<in>| held_keys s \<Longrightarrow>
   \<forall>f\<in>set fs. k |\<in>| declared_keys f \<and> k \<notin> set (dashed_keys f) \<Longrightarrow>
   k |\<notin>| declared_keys g \<Longrightarrow> k \<notin> set (dashed_keys g) \<Longrightarrow>
   map (key_events k) (flush_frames s (fs @ [g])) = replicate (length fs) [] @ [[KeyUp k]]"
proof (induction fs arbitrary: s)
  case Nil
  then show ?case
    using frame_step(1) [of s k g] by (cases "flush (policy_calls g s)") simp
next
  case (Cons f fs)
  obtain s' es where fl: "flush (policy_calls f s) = (s', es)"
    by (cases "flush (policy_calls f s)")
  have fk: "k |\<in>| declared_keys f" "k \<notin> set (dashed_keys f)" using Cons.prems(3) by simp_all
  from frame_step [OF Cons.prems(1) fk(2)] fl fk(1) Cons.prems(2)
  have "key_events k es = []" "held_keys s' = declared_keys f" "intent_reset s'" by simp_all
  with Cons.IH [of s'] Cons.prems fk fl show ?case by simp
qed

lemma flush_dash_Cons:
  "queued_dashes s = d # ds \<Longrightarrow>
   flush_dash s =
     (if dash_key d |\<in>| held_keys s
      then (s\<lparr>held_keys := held_keys s |-| {|dash_key d|}\<rparr>,
            [KeyUp (dash_key d), Press (dash_key d), Sleep 0.03, Press (dash_key d)])
      else (s, [Press (dash_key d), Sleep 0.03, Press (dash_key d)]))"
  by (simp add: flush_dash_def Let_def)

lemma flush_dash_Nil: "queued_dashes s = [] \<Longrightarrow> flush_dash s = (s, [])"
  by (simp add: flush_dash_def)

lemma is_tap_keys [simp]: "filter is_tap (snd (flush_keys s)) = []"
  by (simp add: flush_keys_def Let_def filter_map comp_def)

lemma is_tap_mouse [simp]: "filter is_tap (snd (flush_mouse s)) = []"
  by (simp add: flush_mouse_def Let_def split: option.splits)

lemma flush_no_dash_taps: "queued_dashes s = [] \<Longrightarrow> filter is_tap (snd (flush s)) = []"
proof -
  assume q: "queued_dashes s = []"
  obtain s2 e2 where k: "flush_keys s = (s2, e2)" by (cases "flush_keys s")
  obtain s3 e3 where m: "flush_mouse s2 = (s3, e3)" by (cases "flush_mouse s2")
  have "filter is_tap e2 = []" using is_tap_keys [of s] k by simp
  moreover have "filter is_tap e3 = []" using is_tap_mouse [of s2] m by simp
  ultimately show ?thesis
    by (simp add: flush_def flush_dash_Nil [OF q] k m)
qed

lemma flush_reset_dashes:
  "flush_reset (s\<lparr>queued_dashes := q\<rparr>) = flush_reset s"
  by (simp add: flush_reset_def)

lemma flush_keys_dashes:
  "flush_keys (s\<lparr>queued_dashes := q\<rparr>) =
     (fst (flush_keys s)\<lparr>queued_dashes := q\<rparr>, snd (flush_keys s))"
  by (simp add: flush_keys_def Let_def)

lemma flush_mouse_dashes:
  "flush_mouse (s\<lparr>queued_dashes := q\<rparr>) =
     (fst (flush_mouse s)\<lparr>queued_dashes := q\<rparr>, snd (flush_mouse s))"
  by (simp add: flush_mouse_def Let_def)

lemma flush_after_dash:
  "(let (s2, e2) = flush_keys s1; (s3, e3) = flush_mouse s2 in (flush_reset s3, e1 @ e2 @ e3)) =
   (fst (flush (s1\<lparr>queued_dashes := []\<rparr>)), e1 @ snd (flush (s1\<lparr>queued_dashes := []\<rparr>)))"
  by (simp add: flush_def flush_dash_Nil flush_keys_dashes flush_mouse_dashes
      flush_reset_dashes split_beta Let_def)

lemma flush_eval_1:
  "snd (flush (init_actions\<lparr>held_keys := {|''a''|}, desired_keys := {|''a''|},
       queued_dashes := [''left'', ''right'']\<rparr>)) =
   [KeyUp ''a'', Press ''a'', Sleep 0.03, Press ''a'', KeyDown ''a'']"
  by code_simp

text \<open>
  Claim C2. Take consecutive frames, each one the policy's calls followed by \<open>flush\<close>,
  with no \<open>release_all\<close> in between, starting between two frames with key \<open>k\<close> not
  held. If \<open>k\<close> is declared in each of the frames \<open>fs\<close> and not in the next frame \<open>g\<close>,
  and none of these frames queues a dash on \<open>k\<close>, then the device events on \<open>k\<close> are:
  one key-down in the first flush, nothing in the flushes after it while \<open>k\<close> stays
  declared, and one key-up in the flush of \<open>g\<close>.
\<close>

theorem hold_key_idempotent:
  assumes "intent_reset s" and "k |\<notin>| held_keys s"
    and "fs \<noteq> []"
    and "\<forall>f\<in>set fs. k |\<in>| declared_keys f \<and> k \<notin> set (dashed_keys f)"
    and "k |\<notin>| declared_keys g" and "k \<notin> set (dashed_keys g)"
  shows "map (key_events k) (flush_frames s (fs @ [g])) =
           [KeyDown k] # replicate (length fs - 1) [] @ [[KeyUp k]]"
proof -
  obtain f fs' where fs: "fs = f # fs'" using assms(3) by (cases fs) auto
  obtain s' es where fl: "flush (policy_calls f s) = (s', es)"
    by (cases "flush (policy_calls f s)")
  have fk: "k |\<in>| declared_keys f" "k \<notin> set (dashed_keys f)" using assms(4) fs by simp_all
  from frame_step [OF assms(1) fk(2)] fl fk(1) assms(2)
  have st: "key_events k es = [KeyDown k]" "held_keys s' = declared_keys f" "intent_reset s'"
    by simp_all
  have "map (key_events k) (flush_frames s' (fs' @ [g])) = replicate (length fs') [] @ [[KeyUp k]]"
    using held_run [of s' k fs' g] st fk assms fs by simp
  then show ?thesis
    using fs fl st by simp
qed

theorem hold_key_idempotent_witness:
  "intent_reset init_actions \<and> ''a'' |\<notin>| held_keys init_actions \<and>
   map (key_events ''a'')
     (flush_frames init_actions ([[MoveLeft], [MoveLeft, DashRight], [AttackAt 5 7, MoveLeft]] @ [[MoveRight]])) =
   [[KeyDown ''a''], [], [], [KeyUp ''a'']]"
  using hold_key_idempotent [of init_actions "''a''"
      "[[MoveLeft], [MoveLeft, DashRight], [AttackAt 5 7, MoveLeft]]" "[MoveRight]"]
  by (simp add: intent_reset_def init_actions_def declared_keys_def dashed_keys_def
      policy_calls_def move_left_def move_right_def attack_at_def dash_right_def dash_key_def)

text \<open>
  Claim C3. When the dash queue holds \<open>d # ds\<close> at \<open>flush\<close>, the flush begins with a
  key-up of the dash key of \<open>d\<close> if that key is held, then press, a pause of 0.03 s,
  press, and continues as a flush without any dash. These are the only presses and
  pauses of the flush, the other queued dashes \<open>ds\<close> change nothing, and the queue is
  empty afterwards.
\<close>

theorem flush_one_dash:
  assumes "queued_dashes s = d # ds"
  shows "flush s =
           (fst (flush (s\<lparr>held_keys := held_keys s |-| {|dash_key d|}, queued_dashes := []\<rparr>)),
            (if dash_key d |\<in>| held_keys s then [KeyUp (dash_key d)] else []) @
            [Press (dash_key d), Sleep 0.03, Press (dash_key d)] @
            snd (flush (s\<lparr>held_keys := held_keys s |-| {|dash_key d|}, queued_dashes := []\<rparr>)))
       \<and> filter is_tap (snd (flush s)) = [Press (dash_key d), Sleep 0.03, Press (dash_key d)]
       \<and> flush s = flush (s\<lparr>queued_dashes := [d]\<rparr>)
       \<and> queued_dashes (fst (flush s)) = []"
proof -
  let ?k = "dash_key d"
  let ?s0 = "s\<lparr>held_keys := held_keys s |-| {|?k|}, queued_dashes := []\<rparr>"
  let ?pre = "if ?k |\<in>| held_keys s then [KeyUp ?k] else []"
  let ?tap = "[Press ?k, Sleep 0.03, Press ?k]"
  have shape: "flush t = (fst (flush ?s0), ?pre @ ?tap @ snd (flush ?s0))"
    if "queued_dashes t = d # ds'" and "t\<lparr>queued_dashes := []\<rparr> = s\<lparr>queued_dashes := []\<rparr>"
    for t ds'
  proof (cases "?k |\<in>| held_keys s")
    case True
    have h: "held_keys t = held_keys s" using that(2) by (metis Actions.select_convs(1) Actions.surjective Actions.update_convs(6))
    have "flush t = (let (s2, e2) = flush_keys (t\<lparr>held_keys := held_keys t |-| {|?k|}\<rparr>);
                         (s3, e3) = flush_mouse s2
                     in (flush_reset s3, [KeyUp ?k, Press ?k, Sleep 0.03, Press ?k] @ e2 @ e3))"
      using True h by (simp add: flush_def flush_dash_Cons [OF that(1)])
    also have "\<dots> = (fst (flush (t\<lparr>held_keys := held_keys t |-| {|?k|}, queued_dashes := []\<rparr>)),
                      [KeyUp ?k, Press ?k, Sleep 0.03, Press ?k] @
                      snd (flush (t\<lparr>held_keys := held_keys t |-| {|?k|}, queued_dashes := []\<rparr>)))"
      by (simp only: flush_after_dash)
    also have "t\<lparr>held_keys := held_keys t |-| {|?k|}, queued_dashes := []\<rparr> = ?s0"
      using that(2) h by (cases t, cases s) simp
    finally show ?thesis using True by simp
  next
    case False
    have h: "held_keys t = held_keys s" using that(2) by (metis Actions.select_convs(1) Actions.surjective Actions.update_convs(6))
    have "flush t = (let (s2, e2) = flush_keys t; (s3, e3) = flush_mouse s2
                     in (flush_reset s3, ?tap @ e2 @ e3))"
      using False h by (simp add: flush_def flush_dash_Cons [OF that(1)])
    also have "\<dots> = (fst (flush (t\<lparr>queued_dashes := []\<rparr>)), ?tap @ snd (flush (t\<lparr>queued_dashes := []\<rparr>)))"
      by (simp only: flush_after_dash)
    also have "t\<lparr>queued_dashes := []\<rparr> = ?s0"
      using that(2) False by (cases t, cases s) (auto simp: fminus_triv)
    finally show ?thesis using False by simp
  qed
  have a: "flush s = (fst (flush ?s0), ?pre @ ?tap @ snd (flush ?s0))"
    using shape [of s ds] assms by simp
  have b: "flush (s\<lparr>queued_dashes := [d]\<rparr>) = (fst (flush ?s0), ?pre @ ?tap @ snd (flush ?s0))"
    using shape [of "s\<lparr>queued_dashes := [d]\<rparr>" "[]"] by simp
  have c: "filter is_tap (snd (flush ?s0)) = []"
    by (rule flush_no_dash_taps) simp
  have d: "queued_dashes (fst (flush s)) = []"
    by (simp add: flush_def split_beta flush_reset_def)
  show ?thesis using a b c d by simp
qed

theorem flush_one_dash_witness:
  "queued_dashes (init_actions\<lparr>held_keys := {|''a''|}, desired_keys := {|''a''|},
       queued_dashes := [''left'', ''right'']\<rparr>) = [''left'', ''right''] \<and>
   filter is_tap (snd (flush (init_actions\<lparr>held_keys := {|''a''|}, desired_keys := {|''a''|},
       queued_dashes := [''left'', ''right'']\<rparr>))) = [Press ''a'', Sleep 0.03, Press ''a''] \<and>
   flush (init_actions\<lparr>held_keys := {|''a''|}, desired_keys := {|''a''|},
       queued_dashes := [''left'', ''right'']\<rparr>) =
   flush (init_actions\<lparr>held_keys := {|''a''|}, desired_keys := {|''a''|},
       queued_dashes := [''left'']\<rparr>) \<and>
   snd (flush (init_actions\<lparr>held_keys := {|''a''|}, desired_keys := {|''a''|},
       queued_dashes := [''left'', ''right'']\<rparr>)) =
   [KeyUp ''a'', Press ''a'', Sleep 0.03, Press ''a'', KeyDown ''a'']"
proof -
  let ?s = "init_actions\<lparr>held_keys := {|''a''|}, desired_keys := {|''a''|},
       queued_dashes := [''left'', ''right'']\<rparr>"
  have q: "queued_dashes ?s = [''left'', ''right'']" by simp
  have k: "dash_key ''left'' = ''a''" by (simp add: dash_key_def)
  note t = flush_one_dash [OF q, unfolded k]
  from t have a: "filter is_tap (snd (flush ?s)) = [Press ''a'', Sleep 0.03, Press ''a'']"
    and b: "flush ?s = flush (?s\<lparr>queued_dashes := [''left'']\<rparr>)" by blast+
  show ?thesis using q a b flush_eval_1 by simp
qed

section \<open>Properties of the script runner\<close>

lemma run_policy_Exception:
  "raised f = Some (Exception m) \<Longrightarrow>
   run_policy f s = (policy_calls (calls f) s, [Print (''[ERROR] Script error: '' @ m)], None)"
  by (simp add: run_policy_def)

text \<open>
  Claim C7. In both loops, an iteration whose policy raises an \<open>Exception\<close> (with nothing
  raised later in the iteration, and the stop event not set in the bounded loop) prints
  the error line, then issues the device calls of \<open>flush\<close> on the buffer as the policy's
  calls left it, then logs and paces as usual, and the loop goes on with the next
  iteration from the flushed buffer, with the frame counter increased by one.
\<close>

theorem policy_error_caught:
  assumes "raised f = Some (Exception m)" and "after_flush f = None"
  shows "while_true fps verbose ft n s (f # fs) =
           (let (s2, e2) = flush (policy_calls (calls f) s);
                (s', os, x) = while_true fps verbose ft (n + 1) s2 fs
            in (s', Print (''[ERROR] Script error: '' @ m) # map Dev e2 @
                    log_and_pace fps verbose ft (n + 1) f @ os, x))
       \<and> (\<not> stop_set f \<longrightarrow>
          while_not_stopped fps verbose ft n s (f # fs) =
           (let (s2, e2) = flush (policy_calls (calls f) s);
                (s', os, k, x) = while_not_stopped fps verbose ft (n + 1) s2 fs
            in (s', Print (''[ERROR] Script error: '' @ m) # map Dev e2 @
                    log_and_pace fps verbose ft (n + 1) f @ os, k, x)))"
  using assms by (simp add: run_policy_Exception split_beta Let_def)

theorem policy_error_caught_witness:
  "raised (\<lparr>stop_set = False, calls = [MoveLeft], raised = Some (Exception ''boom''),
       body_elapsed = 0, after_flush = None\<rparr>) = Some (Exception ''boom'') \<and> after_flush (\<lparr>stop_set = False, calls = [MoveLeft], raised = Some (Exception ''boom''),
       body_elapsed = 0, after_flush = None\<rparr>) = None \<and> \<not> stop_set (\<lparr>stop_set = False, calls = [MoveLeft], raised = Some (Exception ''boom''),
       body_elapsed = 0, after_flush = None\<rparr>) \<and>
   while_true 60 True (1 / 60) 0 init_actions [(\<lparr>stop_set = False, calls = [MoveLeft], raised = Some (Exception ''boom''),
       body_elapsed = 0, after_flush = None\<rparr>)] =
     (init_actions\<lparr>held_keys := {|''a''|}\<rparr>,
      [Print ''[ERROR] Script error: boom'', Dev (KeyDown ''a''), Dev (Sleep (1 / 60))], Running) \<and>
   while_not_stopped 60 True (1 / 60) 0 init_actions [(\<lparr>stop_set = False, calls = [MoveLeft], raised = Some (Exception ''boom''),
       body_elapsed = 0, after_flush = None\<rparr>)] =
     (init_actions\<lparr>held_keys := {|''a''|}\<rparr>,
      [Print ''[ERROR] Script error: boom'', Dev (KeyDown ''a''), Dev (Sleep (1 / 60))], 1, Running)"
proof -
  let ?f = "\<lparr>stop_set = False, calls = [MoveLeft], raised = Some (Exception ''boom''),
       body_elapsed = 0, after_flush = None\<rparr>"
  let ?s = "init_actions\<lparr>held_keys := {|''a''|}\<rparr>"
  let ?os = "[Print ''[ERROR] Script error: boom'', Dev (KeyDown ''a''), Dev (Sleep (1 / 60))]"
  have fl: "flush (policy_calls [MoveLeft] init_actions) = (?s, [KeyDown ''a''])"
    by code_simp
  have lp: "log_and_pace 60 True (1 / 60) 1 ?f = [Dev (Sleep (1 / 60))]"
    by (simp add: log_and_pace_def)
  have h: "raised ?f = Some (Exception ''boom'')" "after_flush ?f = None" "\<not> stop_set ?f"
    by simp_all
  note t = policy_error_caught [OF h(1,2), of 60 True "1 / 60" 0 init_actions "[]"]
  have "while_true 60 True (1 / 60) 0 init_actions [?f] =
          (let (s2, e2) = flush (policy_calls (calls ?f) init_actions);
               (s', os, x) = while_true 60 True (1 / 60) (0 + 1) s2 []
           in (s', Print (''[ERROR] Script error: '' @ ''boom'') # map Dev e2 @
                   log_and_pace 60 True (1 / 60) (0 + 1) ?f @ os, x))"
    by (rule t [THEN conjunct1])
  also have "\<dots> = (?s, ?os, Running)"
    by (simp add: fl lp)
  finally have a: "while_true 60 True (1 / 60) 0 init_actions [?f] = (?s, ?os, Running)" .
  have "while_not_stopped 60 True (1 / 60) 0 init_actions [?f] =
          (let (s2, e2) = flush (policy_calls (calls ?f) init_actions);
               (s', os, k, x) = while_not_stopped 60 True (1 / 60) (0 + 1) s2 []
           in (s', Print (''[ERROR] Script error: '' @ ''boom'') # map Dev e2 @
                   log_and_pace 60 True (1 / 60) (0 + 1) ?f @ os, k, x))"
    by (rule t [THEN conjunct2, rule_format, OF h(3)])
  also have "\<dots> = (?s, ?os, 1, Running)"
    by (simp add: fl lp)
  finally have b: "while_not_stopped 60 True (1 / 60) 0 init_actions [?f] = (?s, ?os, 1, Running)" .
  show ?thesis by (intro conjI h a b)
qed




lemma device_after_append [simp]:
  "device_after (xs @ ys) d = device_after ys (device_after xs d)"
  by (simp add: device_after_def)





lemma policy_calls_mirror [simp]: "mirror (policy_calls ds s) = mirror s"
  by (simp add: mirror_def)


lemma log_and_pace_device [simp]: "device_after (log_and_pace fps v ft n f) d = d"
  by (cases d) (simp add: log_and_pace_def device_after_def Let_def)











section \<open>Properties of the tracker\<close>

lemma heuristic_tier_E:
  assumes "heuristic_tier c cv t frame tp = (ro, cs)"
  obtains (skip) "ro = None" "cs = []"
  | (miss) roi where "ro = None" "cs = [BestMatch Heuristic roi tp]" "last_pos t \<noteq> None"
      "fst (best_match cv roi tp (tm_method c)) < confidence c"
  | (hit) roi r where "ro = Some r" "cs = [BestMatch Heuristic roi tp]" "last_pos t \<noteq> None"
      "r_found r" "r_method r = ''Heuristic''"
      "r_score r = fst (best_match cv roi tp (tm_method c))" "r_score r \<ge> confidence c"
  using assms
  by (auto simp: heuristic_tier_def found_result_def split_beta Let_def
      split: option.splits if_splits)

lemma pyramid_tier_E:
  assumes "pyramid_tier c cv t frame tp fsm = Inr (ro, cs)"
  obtains (skip) "ro = None" "cs = []"
  | (coarse) small where "ro = None" "cs = [BestMatch PyramidCoarse small (tpl_small t)]"
      "use_pyramid c" "fsm = Some small"
  | (miss) small roi where "ro = None"
      "cs = [BestMatch PyramidCoarse small (tpl_small t), BestMatch PyramidRefine roi tp]"
      "use_pyramid c" "fsm = Some small"
      "fst (best_match cv small (tpl_small t) (tm_method c)) \<ge> confidence c * 0.9"
      "fst (best_match cv roi tp (tm_method c)) < confidence c"
  | (hit) small roi r where "ro = Some r"
      "cs = [BestMatch PyramidCoarse small (tpl_small t), BestMatch PyramidRefine roi tp]"
      "use_pyramid c" "fsm = Some small"
      "fst (best_match cv small (tpl_small t) (tm_method c)) \<ge> confidence c * 0.9"
      "r_found r" "r_method r = ''Pyramid''"
      "r_score r = fst (best_match cv roi tp (tm_method c))" "r_score r \<ge> confidence c"
  using assms
  by (auto simp: pyramid_tier_def found_result_def split_beta Let_def
      split: option.splits if_splits)

lemma full_scan_tier_E:
  assumes "full_scan_tier c cv t frame tp = (ro, cs)"
  obtains (skip) "ro = None" "cs = []"
  | (miss) "ro = None" "cs = [BestMatch FullScan frame tp]" "\<not> skip_full_scan c"
      "fst (best_match cv frame tp (tm_method c)) < confidence c"
  | (hit) r where "ro = Some r" "cs = [BestMatch FullScan frame tp]" "\<not> skip_full_scan c"
      "r_found r" "r_method r = ''Full Scan''"
      "r_score r = fst (best_match cv frame tp (tm_method c))" "r_score r \<ge> confidence c"
  using assms
  by (auto simp: full_scan_tier_def found_result_def split_beta Let_def
      split: option.splits if_splits)

lemma match_one_E:
  assumes "match_one c cv t fb fg fsm = Inr (r, cs)"
  obtains (heur) frame where "picked_frame c fb fg = Some frame"
      "heuristic_tier c cv t frame (picked_tpl c t) = (Some r, cs)"
  | (pyr) frame cs1 cs2 where "picked_frame c fb fg = Some frame"
      "heuristic_tier c cv t frame (picked_tpl c t) = (None, cs1)"
      "pyramid_tier c cv t frame (picked_tpl c t) fsm = Inr (Some r, cs2)" "cs = cs1 @ cs2"
  | (full) frame cs1 cs2 cs3 where "picked_frame c fb fg = Some frame"
      "heuristic_tier c cv t frame (picked_tpl c t) = (None, cs1)"
      "pyramid_tier c cv t frame (picked_tpl c t) fsm = Inr (None, cs2)"
      "full_scan_tier c cv t frame (picked_tpl c t) = (Some r, cs3)" "cs = cs1 @ cs2 @ cs3"
  | (none) frame cs1 cs2 cs3 where "picked_frame c fb fg = Some frame"
      "heuristic_tier c cv t frame (picked_tpl c t) = (None, cs1)"
      "pyramid_tier c cv t frame (picked_tpl c t) fsm = Inr (None, cs2)"
      "full_scan_tier c cv t frame (picked_tpl c t) = (None, cs3)" "cs = cs1 @ cs2 @ cs3"
      "r = not_found_result t"
proof -
  let ?tp = "picked_tpl c t"
  have m: "match_one c cv t fb fg fsm =
     (case picked_frame c fb fg of
        None \<Rightarrow> Inl AssertionError
      | Some frame \<Rightarrow>
          (case heuristic_tier c cv t frame ?tp of
             (Some r, cs1) \<Rightarrow> Inr (r, cs1)
           | (None, cs1) \<Rightarrow>
               (case pyramid_tier c cv t frame ?tp fsm of
                  Inl e \<Rightarrow> Inl e
                | Inr (Some r, cs2) \<Rightarrow> Inr (r, cs1 @ cs2)
                | Inr (None, cs2) \<Rightarrow>
                    (case full_scan_tier c cv t frame ?tp of
                       (Some r, cs3) \<Rightarrow> Inr (r, cs1 @ cs2 @ cs3)
                     | (None, cs3) \<Rightarrow> Inr (not_found_result t, cs1 @ cs2 @ cs3)))))"
    unfolding match_one_def picked_frame_def picked_tpl_def
    by (cases "use_grayscale c") (simp_all cong: option.case_cong prod.case_cong sum.case_cong)
  obtain frame where f: "picked_frame c fb fg = Some frame"
    using assms unfolding m by (cases "picked_frame c fb fg") auto
  obtain ro1 cs1 where h: "heuristic_tier c cv t frame ?tp = (ro1, cs1)"
    by (cases "heuristic_tier c cv t frame ?tp")
  show thesis
  proof (cases ro1)
    case (Some r1)
    with assms m f h have "heuristic_tier c cv t frame ?tp = (Some r, cs)" by simp
    with f show thesis by (rule heur)
  next
    case n1: None
    obtain ro2 cs2 where p: "pyramid_tier c cv t frame ?tp fsm = Inr (ro2, cs2)"
      using assms m f h n1 by (cases "pyramid_tier c cv t frame ?tp fsm") auto
    show thesis
    proof (cases ro2)
      case (Some r2)
      with assms m f h n1 p have "r = r2" "cs = cs1 @ cs2" by simp_all
      with f h n1 p Some show thesis by (auto intro: pyr)
    next
      case n2: None
      obtain ro3 cs3 where fu: "full_scan_tier c cv t frame ?tp = (ro3, cs3)"
        by (cases "full_scan_tier c cv t frame ?tp")
      show thesis
      proof (cases ro3)
        case (Some r3)
        with assms m f h n1 p n2 fu have "r = r3" "cs = cs1 @ cs2 @ cs3" by simp_all
        with f h n1 p n2 fu Some show thesis by (auto intro: full)
      next
        case n3: None
        with assms m f h n1 p n2 fu have "r = not_found_result t" "cs = cs1 @ cs2 @ cs3" by simp_all
        with f h n1 p n2 fu n3 show thesis by (auto intro: none)
      qed
    qed
  qed
qed

lemma match_one_props:
  assumes "match_one c cv t fb fg fsm = Inr (r, cs)"
  shows "sorted_wrt (<) (map (tier_rank \<circ> call_tier) cs)
    \<and> (Heuristic \<in> call_tier ` set cs \<longrightarrow> last_pos t \<noteq> None)
    \<and> (PyramidCoarse \<in> call_tier ` set cs \<or> PyramidRefine \<in> call_tier ` set cs
         \<longrightarrow> use_pyramid c \<and> fsm \<noteq> None)
    \<and> (FullScan \<in> call_tier ` set cs \<longrightarrow> \<not> skip_full_scan c)
    \<and> (r_found r \<longrightarrow> cs \<noteq> [] \<and> call_tier (last cs) \<noteq> PyramidCoarse
         \<and> r_method r = tier_tag (call_tier (last cs))
         \<and> r_score r = call_score c cv (last cs) \<and> r_score r \<ge> confidence c)
    \<and> (\<forall>cl \<in> set (butlast cs). call_tier cl \<noteq> PyramidCoarse \<longrightarrow> call_score c cv cl < confidence c)
    \<and> (\<not> r_found r \<longrightarrow> r_method r = ''Not Found''
         \<and> (\<forall>cl \<in> set cs. call_tier cl \<noteq> PyramidCoarse \<longrightarrow> call_score c cv cl < confidence c))"
  using assms
proof (cases rule: match_one_E)
  case (heur frame)
  from heur(2) show ?thesis
    by (elim heuristic_tier_E) simp_all
next
  case (pyr frame cs1 cs2)
  from pyr(2,3) show ?thesis unfolding pyr(4)
    by (elim heuristic_tier_E pyramid_tier_E) simp_all
next
  case (full frame cs1 cs2 cs3)
  from full(2,3,4) show ?thesis unfolding full(5)
    by (elim heuristic_tier_E pyramid_tier_E full_scan_tier_E) simp_all
next
  case (none frame cs1 cs2 cs3)
  from none(2,3,4) show ?thesis unfolding none(5,6)
    by (elim heuristic_tier_E pyramid_tier_E full_scan_tier_E) (simp_all add: not_found_result_def)
qed

lemma heuristic_tier_total: "\<exists>ro cs. heuristic_tier c cv t frame tp = (ro, cs)"
  by (cases "heuristic_tier c cv t frame tp") auto

lemma pyramid_tier_total:
  "downscale_factor c \<noteq> 0 \<Longrightarrow> \<exists>ro cs. pyramid_tier c cv t frame tp fsm = Inr (ro, cs)"
  by (auto simp: pyramid_tier_def split_beta Let_def split: option.splits)

lemma match_one_total:
  assumes "downscale_factor c \<noteq> 0" and "use_grayscale c \<longrightarrow> fg \<noteq> None"
  shows "\<exists>r cs. match_one c cv t fb fg fsm = Inr (r, cs)"
proof -
  obtain frame where f: "(if use_grayscale c then fg else Some fb) = Some frame"
    using assms(2) by (cases "use_grayscale c") auto
  let ?tp = "if use_grayscale c then tpl_gray t else tpl t"
  obtain ro2 cs2 where p: "pyramid_tier c cv t frame ?tp fsm = Inr (ro2, cs2)"
    using pyramid_tier_total [OF assms(1), of cv t frame ?tp fsm] by blast
  have "match_one c cv t fb fg fsm =
     (case heuristic_tier c cv t frame ?tp of
        (Some r, cs1) \<Rightarrow> Inr (r, cs1)
      | (None, cs1) \<Rightarrow>
          (case ro2 of
             Some r \<Rightarrow> Inr (r, cs1 @ cs2)
           | None \<Rightarrow>
               (case full_scan_tier c cv t frame ?tp of
                  (Some r, cs3) \<Rightarrow> Inr (r, cs1 @ cs2 @ cs3)
                | (None, cs3) \<Rightarrow> Inr (not_found_result t, cs1 @ cs2 @ cs3))))"
    using f p unfolding match_one_def
    by (cases "use_grayscale c")
       (auto split: option.splits prod.splits cong: option.case_cong prod.case_cong sum.case_cong)
  then show ?thesis
    by (auto split: option.splits prod.splits)
qed




lemma ex_cfg_facts: "downscale_factor ex_cfg = 0.5" "use_grayscale ex_cfg" "confidence ex_cfg = 0.85"
  "use_pyramid ex_cfg" "skip_full_scan ex_cfg"
  by (simp_all add: ex_cfg_def init_cfg_def)






lemma match_one_id:
  assumes "match_one c cv t fb fg fsm = Inr (r, cs)"
  shows "r_id r = t_id t"
  using assms
proof (cases rule: match_one_E)
  case (heur frame)
  then show ?thesis
    by (auto simp: heuristic_tier_def found_result_def split_beta Let_def split: option.splits if_splits)
next
  case (pyr frame cs1 cs2)
  then show ?thesis
    by (auto simp: pyramid_tier_def found_result_def split_beta Let_def split: option.splits if_splits)
next
  case (full frame cs1 cs2 cs3)
  then show ?thesis
    by (auto simp: full_scan_tier_def found_result_def split_beta Let_def split: if_splits)
next
  case (none frame cs1 cs2 cs3)
  then show ?thesis by (simp add: not_found_result_def)
qed

lemma match_one_coarse_region:
  assumes "match_one c cv t fb fg fsm = Inr (r, cs)"
  shows "\<forall>cl \<in> set cs. call_tier cl = PyramidCoarse \<longrightarrow> fsm = Some (call_region cl)"
  using assms
proof (cases rule: match_one_E)
  case (heur frame)
  from heur(2) show ?thesis
    by (elim heuristic_tier_E) simp_all
next
  case (pyr frame cs1 cs2)
  from pyr(2,3) show ?thesis unfolding pyr(4)
    by (elim heuristic_tier_E pyramid_tier_E) simp_all
next
  case (full frame cs1 cs2 cs3)
  from full(2,3,4) show ?thesis unfolding full(5)
    by (elim heuristic_tier_E pyramid_tier_E full_scan_tier_E) simp_all
next
  case (none frame cs1 cs2 cs3)
  from none(2,3,4) show ?thesis unfolding none(5,6)
    by (elim heuristic_tier_E pyramid_tier_E full_scan_tier_E) simp_all
qed

lemma match_all_Inr:
  "match_all c cv ts fb fg fsm = Inr rs \<Longrightarrow>
   list_all2 (\<lambda>t re. \<exists>cs. match_one c cv t fb fg fsm = Inr (fst re, cs) \<and>
                          snd re = MatchOne (t_id t) fb fg fsm cs) ts rs"
proof (induction ts arbitrary: rs)
  case Nil
  then show ?case by simp
next
  case (Cons t ts)
  from Cons.prems obtain r cs where m: "match_one c cv t fb fg fsm = Inr (r, cs)"
    by (cases "match_one c cv t fb fg fsm") auto
  from Cons.prems m obtain rs' where a: "match_all c cv ts fb fg fsm = Inr rs'"
    by (cases "match_all c cv ts fb fg fsm") auto
  from Cons.prems m a have rs: "rs = (r, MatchOne (t_id t) fb fg fsm cs) # rs'" by simp
  show ?case using Cons.IH [OF a] m rs by simp
qed

lemma match_all_total:
  assumes "downscale_factor c \<noteq> 0" and "use_grayscale c \<longrightarrow> fg \<noteq> None"
  shows "\<exists>rs. match_all c cv ts fb fg fsm = Inr rs"
proof (induction ts)
  case Nil
  show ?case by simp
next
  case (Cons t ts)
  from match_one_total [OF assms, of cv t fb fsm] obtain r cs
    where "match_one c cv t fb fg fsm = Inr (r, cs)" by blast
  with Cons show ?case by auto
qed

lemma update_state_enum:
  "map r_id rs = [k..<k + length rs] \<Longrightarrow> k + length rs \<le> length ts \<Longrightarrow>
   \<exists>ts'. update_state ts rs = Inr ts' \<and> length ts' = length ts \<and>
     (\<forall>i<length ts. ts' ! i = (if k \<le> i \<and> i < k + length rs then updated (ts ! i) (rs ! (i - k))
                               else ts ! i))"
proof (induction rs arbitrary: ts k)
  case Nil
  then show ?case by auto
next
  case (Cons r rs)
  from Cons.prems(1) have rk: "r_id r = k" and rest: "map r_id rs = [Suc k..<Suc k + length rs]"
    by (simp_all add: upt_rec)
  let ?ts1 = "ts[k := updated (ts ! k) r]"
  from Cons.prems(2) have len: "Suc k + length rs \<le> length ?ts1" and kl: "k < length ts" by simp_all
  from Cons.IH [OF rest len] obtain ts' where
    u: "update_state ?ts1 rs = Inr ts'" and l: "length ts' = length ts"
    and p: "\<forall>i<length ts. ts' ! i =
         (if Suc k \<le> i \<and> i < Suc k + length rs then updated (?ts1 ! i) (rs ! (i - Suc k))
          else ?ts1 ! i)"
    by auto
  have "update_state ts (r # rs) = Inr ts'"
    using u rk kl by (simp add: updated_def)
  moreover have "\<forall>i<length ts. ts' ! i =
      (if k \<le> i \<and> i < k + length (r # rs) then updated (ts ! i) ((r # rs) ! (i - k)) else ts ! i)"
  proof (intro allI impI)
    fix i assume i: "i < length ts"
    show "ts' ! i =
      (if k \<le> i \<and> i < k + length (r # rs) then updated (ts ! i) ((r # rs) ! (i - k)) else ts ! i)"
    proof (cases "i = k")
      case True
      then show ?thesis using p i kl by simp
    next
      case False
      then show ?thesis using p i by (auto simp: nth_Cons')
    qed
  qed
  ultimately show ?case using l by blast
qed

lemma find_all_unfold:
  "find_all cv tr =
     (case match_all (cfg tr) cv (templates tr) (cycle_frame cv tr) (cycle_gray cv tr) (cycle_small cv tr) of
        Inl e \<Rightarrow> Inl e
      | Inr mrs \<Rightarrow>
          (case update_state (templates tr) (map fst mrs) of
             Inl e \<Rightarrow> Inl e
           | Inr ts \<Rightarrow> Inr (tr\<lparr>grabs := grabs tr + 1, last_frame := Some (cycle_frame cv tr), templates := ts\<rparr>,
                  map fst mrs,
                  Grab (cycle_frame cv tr) #
                  (if use_grayscale (cfg tr) then [CvtGray (cycle_frame cv tr)] else []) @
                  (if use_pyramid (cfg tr)
                   then [Resize (if use_grayscale (cfg tr) then cvtColor_BGR2GRAY cv (cycle_frame cv tr)
                                 else cycle_frame cv tr)
                           (screen_w_small (cfg tr), screen_h_small (cfg tr))]
                   else []) @ map snd mrs)))"
  by (simp add: find_all_def Let_def cycle_frame_def cycle_gray_def cycle_small_def
      cong: sum.case_cong)

lemma find_all_E:
  assumes "find_all cv tr = Inr (tr', rs, lg)"
  obtains mrs where
    "match_all (cfg tr) cv (templates tr) (cycle_frame cv tr) (cycle_gray cv tr) (cycle_small cv tr) = Inr mrs"
    "rs = map fst mrs"
    "update_state (templates tr) rs = Inr (templates tr')"
    "cfg tr' = cfg tr" "grabs tr' = grabs tr + 1" "last_frame tr' = Some (cycle_frame cv tr)"
    "\<exists>e1 e2. lg = Grab (cycle_frame cv tr) # e1 @ e2 @ map snd mrs \<and>
        (\<forall>e \<in> set e1. \<not> is_grab e \<and> \<not> is_resize e \<and> \<not> is_match_one e \<and> match_id e = None) \<and>
        (\<forall>e \<in> set e2. \<not> is_grab e \<and> \<not> is_match_one e \<and> match_id e = None) \<and> length e2 \<le> 1"
proof -
  let ?ma = "match_all (cfg tr) cv (templates tr) (cycle_frame cv tr) (cycle_gray cv tr) (cycle_small cv tr)"
  note fa = find_all_unfold [of cv tr]
  from assms fa obtain mrs where m: "?ma = Inr mrs" by (cases ?ma) auto
  from assms fa m obtain ts where u: "update_state (templates tr) (map fst mrs) = Inr ts"
    by (cases "update_state (templates tr) (map fst mrs)") auto
  from assms fa m u have
    t: "tr' = tr\<lparr>grabs := grabs tr + 1, last_frame := Some (cycle_frame cv tr), templates := ts\<rparr>"
    and r: "rs = map fst mrs"
    and l: "lg = Grab (cycle_frame cv tr) #
                  (if use_grayscale (cfg tr) then [CvtGray (cycle_frame cv tr)] else []) @
                  (if use_pyramid (cfg tr)
                   then [Resize (if use_grayscale (cfg tr) then cvtColor_BGR2GRAY cv (cycle_frame cv tr)
                                 else cycle_frame cv tr)
                           (screen_w_small (cfg tr), screen_h_small (cfg tr))]
                   else []) @ map snd mrs"
    by simp_all
  show thesis
  proof (rule that [OF m r])
    show "update_state (templates tr) rs = Inr (templates tr')" using u r t by simp
    show "cfg tr' = cfg tr" "grabs tr' = grabs tr + 1" "last_frame tr' = Some (cycle_frame cv tr)"
      using t by simp_all
    show "\<exists>e1 e2. lg = Grab (cycle_frame cv tr) # e1 @ e2 @ map snd mrs \<and>
        (\<forall>e \<in> set e1. \<not> is_grab e \<and> \<not> is_resize e \<and> \<not> is_match_one e \<and> match_id e = None) \<and>
        (\<forall>e \<in> set e2. \<not> is_grab e \<and> \<not> is_match_one e \<and> match_id e = None) \<and> length e2 \<le> 1"
      apply (rule exI [of _ "if use_grayscale (cfg tr) then [CvtGray (cycle_frame cv tr)] else []"])
      apply (rule exI [of _ "if use_pyramid (cfg tr)
                   then [Resize (if use_grayscale (cfg tr) then cvtColor_BGR2GRAY cv (cycle_frame cv tr)
                                 else cycle_frame cv tr)
                           (screen_w_small (cfg tr), screen_h_small (cfg tr))]
                   else []"])
      using l by simp
  qed
qed

lemma not_match_one_calls: "\<not> is_match_one e \<Longrightarrow> match_calls i e = []"
  by (cases e) simp_all

lemma match_all_events:
  assumes "match_all c cv ts fb fg fsm = Inr mrs"
  shows "length mrs = length ts"
    and "\<forall>i<length ts. \<exists>cs. match_one c cv (ts ! i) fb fg fsm = Inr (fst (mrs ! i), cs) \<and>
           snd (mrs ! i) = MatchOne (t_id (ts ! i)) fb fg fsm cs"
  using match_all_Inr [OF assms] by (auto simp: list_all2_conv_all_nth)

lemma match_all_ids:
  assumes "match_all c cv ts fb fg fsm = Inr mrs"
  shows "map r_id (map fst mrs) = map t_id ts"
proof (rule nth_equalityI)
  show "length (map r_id (map fst mrs)) = length (map t_id ts)"
    using match_all_events(1) [OF assms] by simp
next
  fix i assume "i < length (map r_id (map fst mrs))"
  then have i: "i < length ts" using match_all_events(1) [OF assms] by simp
  with match_all_events(2) [OF assms] obtain cs where
    "match_one c cv (ts ! i) fb fg fsm = Inr (fst (mrs ! i), cs)" by blast
  from match_one_id [OF this] show "map r_id (map fst mrs) ! i = map t_id ts ! i"
    using i match_all_events(1) [OF assms] by simp
qed

lemma match_all_snd:
  assumes "match_all c cv ts fb fg fsm = Inr mrs" and "e \<in> set (map snd mrs)"
  shows "\<exists>i cs. i < length ts \<and> e = MatchOne (t_id (ts ! i)) fb fg fsm cs \<and>
           match_one c cv (ts ! i) fb fg fsm = Inr (fst (mrs ! i), cs)"
proof -
  from assms(2) obtain i where i: "i < length mrs" "e = snd (mrs ! i)"
    by (auto simp: in_set_conv_nth)
  with match_all_events [OF assms(1)] show ?thesis by metis
qed

lemma match_all_match_ids:
  "match_all c cv ts fb fg fsm = Inr mrs \<Longrightarrow> List.map_filter match_id (map snd mrs) = map t_id ts"
proof (induction ts arbitrary: mrs)
  case Nil
  then show ?case by (simp add: List.map_filter_simps)
next
  case (Cons t ts)
  from Cons.prems obtain r cs where m: "match_one c cv t fb fg fsm = Inr (r, cs)"
    by (cases "match_one c cv t fb fg fsm") auto
  from Cons.prems m obtain rs' where a: "match_all c cv ts fb fg fsm = Inr rs'"
    by (cases "match_all c cv ts fb fg fsm") auto
  from Cons.prems m a have rs: "mrs = (r, MatchOne (t_id t) fb fg fsm cs) # rs'" by simp
  show ?case using Cons.IH [OF a] rs by (simp add: List.map_filter_simps)
qed

lemma map_filter_None: "\<forall>x \<in> set xs. f x = None \<Longrightarrow> List.map_filter f xs = []"
  by (induction xs) (simp_all add: List.map_filter_simps)

lemma map_filter_app: "List.map_filter f (xs @ ys) = List.map_filter f xs @ List.map_filter f ys"
  by (simp add: List.map_filter_def)

lemma filter_none: "\<forall>x \<in> set xs. \<not> P x \<Longrightarrow> filter P xs = []"
  by (induction xs) simp_all

lemma find_all_total:
  assumes "ids_enumerated (templates tr)" and "downscale_factor (cfg tr) \<noteq> 0"
  shows "\<exists>tr' rs lg. find_all cv tr = Inr (tr', rs, lg)"
proof -
  have g: "use_grayscale (cfg tr) \<longrightarrow> cycle_gray cv tr \<noteq> None" by (simp add: cycle_gray_def)
  from match_all_total [OF assms(2) g] obtain mrs where
    m: "match_all (cfg tr) cv (templates tr) (cycle_frame cv tr) (cycle_gray cv tr) (cycle_small cv tr) = Inr mrs"
    by blast
  have ids: "map r_id (map fst mrs) = [0..<0 + length (map fst mrs)]"
    using match_all_ids [OF m] match_all_events(1) [OF m] assms(1) by (simp add: ids_enumerated_def)
  have "0 + length (map fst mrs) \<le> length (templates tr)"
    using match_all_events(1) [OF m] by simp
  from update_state_enum [OF ids this] obtain ts where
    "update_state (templates tr) (map fst mrs) = Inr ts" by blast
  with m show ?thesis by (simp add: find_all_unfold)
qed

lemma find_all_state:
  assumes "find_all cv tr = Inr (tr', rs, lg)" and "ids_enumerated (templates tr)"
  shows "length rs = length (templates tr)"
    and "length (templates tr') = length (templates tr)"
    and "\<forall>i<length (templates tr). templates tr' ! i = updated (templates tr ! i) (rs ! i)"
    and "\<forall>i<length (templates tr). r_id (rs ! i) = i"
    and "ids_enumerated (templates tr')"
proof -
  from assms(1) obtain mrs where
    m: "match_all (cfg tr) cv (templates tr) (cycle_frame cv tr) (cycle_gray cv tr) (cycle_small cv tr) = Inr mrs"
    and r: "rs = map fst mrs"
    and u: "update_state (templates tr) rs = Inr (templates tr')"
    by (rule find_all_E)
  show len: "length rs = length (templates tr)" using match_all_events(1) [OF m] r by simp
  have ids: "map r_id rs = [0..<0 + length rs]"
    using match_all_ids [OF m] len r assms(2) by (simp add: ids_enumerated_def)
  have "0 + length rs \<le> length (templates tr)" using len by simp
  from update_state_enum [OF ids this] u len
  show l2: "length (templates tr') = length (templates tr)"
    and p: "\<forall>i<length (templates tr). templates tr' ! i = updated (templates tr ! i) (rs ! i)"
    by auto
  show "\<forall>i<length (templates tr). r_id (rs ! i) = i"
  proof (intro allI impI)
    fix i assume "i < length (templates tr)"
    then have "map r_id rs ! i = [0..<0 + length rs] ! i" "i < length rs" using ids len by simp_all
    then show "r_id (rs ! i) = i" by simp
  qed
  show "ids_enumerated (templates tr')"
    unfolding ids_enumerated_def
  proof (rule nth_equalityI)
    show "length (map t_id (templates tr')) = length [0..<length (templates tr')]" by simp
  next
    fix i assume "i < length (map t_id (templates tr'))"
    then have i: "i < length (templates tr)" using l2 by simp
    then have "t_id (templates tr' ! i) = t_id (templates tr ! i)" using p by (simp add: updated_def)
    also have "\<dots> = map t_id (templates tr) ! i" using i by simp
    also have "\<dots> = i" using assms(2) i by (simp add: ids_enumerated_def)
    finally show "map t_id (templates tr') ! i = [0..<length (templates tr')] ! i"
      using i l2 by simp
  qed
qed

lemma find_all_log:
  assumes "find_all cv tr = Inr (tr', rs, lg)"
  shows "grabs tr' = grabs tr + 1"
    and "filter is_grab lg = [Grab (cycle_frame cv tr)]"
    and "length (filter is_resize lg) \<le> 1"
    and "\<forall>e \<in> set lg. is_match_one e \<longrightarrow>
           match_args e = Some (cycle_frame cv tr, cycle_gray cv tr, cycle_small cv tr)"
    and "List.map_filter match_id lg = map t_id (templates tr)"
    and "\<forall>e \<in> set lg. \<forall>i. \<forall>cl \<in> set (match_calls i e).
           call_tier cl = PyramidCoarse \<longrightarrow> cycle_small cv tr = Some (call_region cl)"
proof -
  from assms obtain mrs e1 e2 where
    m: "match_all (cfg tr) cv (templates tr) (cycle_frame cv tr) (cycle_gray cv tr) (cycle_small cv tr) = Inr mrs"
    and g: "grabs tr' = grabs tr + 1"
    and l: "lg = Grab (cycle_frame cv tr) # e1 @ e2 @ map snd mrs"
    and e1: "\<forall>e \<in> set e1. \<not> is_grab e \<and> \<not> is_resize e \<and> \<not> is_match_one e \<and> match_id e = None"
    and e2: "\<forall>e \<in> set e2. \<not> is_grab e \<and> \<not> is_match_one e \<and> match_id e = None"
    and e2l: "length e2 \<le> 1"
    by (elim find_all_E) blast
  have ms: "\<forall>e \<in> set (map snd mrs). \<not> is_grab e \<and> \<not> is_resize e \<and>
       match_args e = Some (cycle_frame cv tr, cycle_gray cv tr, cycle_small cv tr)"
    using match_all_snd [OF m] by fastforce
  show "grabs tr' = grabs tr + 1" by (rule g)
  show "filter is_grab lg = [Grab (cycle_frame cv tr)]"
    using e1 e2 ms by (simp add: l filter_none)
  have "filter is_resize lg = filter is_resize e2"
    using e1 ms by (simp add: l filter_none)
  then show "length (filter is_resize lg) \<le> 1"
    using le_trans [OF length_filter_le [of is_resize e2] e2l] by simp
  show "\<forall>e \<in> set lg. is_match_one e \<longrightarrow>
           match_args e = Some (cycle_frame cv tr, cycle_gray cv tr, cycle_small cv tr)"
    using e1 e2 ms by (auto simp: l)
  show "List.map_filter match_id lg = map t_id (templates tr)"
    using e1 e2 match_all_match_ids [OF m]
    by (simp add: l map_filter_app map_filter_None List.map_filter_simps)
  show "\<forall>e \<in> set lg. \<forall>i. \<forall>cl \<in> set (match_calls i e).
           call_tier cl = PyramidCoarse \<longrightarrow> cycle_small cv tr = Some (call_region cl)"
  proof (intro ballI allI impI)
    fix e i cl
    assume e: "e \<in> set lg" and cl: "cl \<in> set (match_calls i e)" and t: "call_tier cl = PyramidCoarse"
    have "e \<in> set (map snd mrs)"
    proof (rule ccontr)
      assume "e \<notin> set (map snd mrs)"
      with e l e1 e2 have "\<not> is_match_one e" by auto
      from not_match_one_calls [OF this] cl show False by simp
    qed
    from match_all_snd [OF m this] obtain j cs where
      j: "e = MatchOne (t_id (templates tr ! j)) (cycle_frame cv tr) (cycle_gray cv tr) (cycle_small cv tr) cs"
      and mo: "match_one (cfg tr) cv (templates tr ! j) (cycle_frame cv tr) (cycle_gray cv tr)
                 (cycle_small cv tr) = Inr (fst (mrs ! j), cs)"
      by blast
    from cl j have "cl \<in> set cs" by (simp split: if_splits)
    with match_one_coarse_region [OF mo] t show "cycle_small cv tr = Some (call_region cl)" by blast
  qed
qed

lemma ex_cycle1:
  "find_all ex_cv (ex_state None 0) =
   Inr (ex_state (Some (800, 400)) 1,
        [found_result ex_template 800 400 0.92 ''Pyramid'', not_found_result ex_template2],
        [Grab (Screen 0), CvtGray (Screen 0), Resize (Gray (Screen 0)) (960, 540),
         MatchOne 0 (Screen 0) (Some (Gray (Screen 0))) (Some (Resized (Gray (Screen 0)) 960 540))
           [BestMatch PyramidCoarse (Resized (Gray (Screen 0)) 960 540) (Resized (Gray (Template 0)) 25 25),
            BestMatch PyramidRefine (Crop (Gray (Screen 0)) 300 550 700 950) (Gray (Template 0))],
         MatchOne 1 (Screen 0) (Some (Gray (Screen 0))) (Some (Resized (Gray (Screen 0)) 960 540))
           [BestMatch PyramidCoarse (Resized (Gray (Screen 0)) 960 540) (Resized (Gray (Template 1)) 20 15)]])"
  by code_simp

lemma ex_cycle3:
  "find_all ex_cv (ex_state (Some (820, 400)) 2) =
   Inr (ex_state None 3,
        [not_found_result ex_template, not_found_result ex_template2],
        [Grab (Screen 2), CvtGray (Screen 2), Resize (Gray (Screen 2)) (960, 540),
         MatchOne 0 (Screen 2) (Some (Gray (Screen 2))) (Some (Resized (Gray (Screen 2)) 960 540))
           [BestMatch Heuristic (Crop (Gray (Screen 2)) 250 600 670 1020) (Gray (Template 0)),
            BestMatch PyramidCoarse (Resized (Gray (Screen 2)) 960 540) (Resized (Gray (Template 0)) 25 25)],
         MatchOne 1 (Screen 2) (Some (Gray (Screen 2))) (Some (Resized (Gray (Screen 2)) 960 540))
           [BestMatch PyramidCoarse (Resized (Gray (Screen 2)) 960 540) (Resized (Gray (Template 1)) 20 15)]])"
  by code_simp

lemma ex_cycle4:
  "find_all ex_cv (ex_state None 3) =
   Inr (ex_state None 4,
        [not_found_result ex_template, not_found_result ex_template2],
        [Grab (Screen 3), CvtGray (Screen 3), Resize (Gray (Screen 3)) (960, 540),
         MatchOne 0 (Screen 3) (Some (Gray (Screen 3))) (Some (Resized (Gray (Screen 3)) 960 540))
           [BestMatch PyramidCoarse (Resized (Gray (Screen 3)) 960 540) (Resized (Gray (Template 0)) 25 25)],
         MatchOne 1 (Screen 3) (Some (Gray (Screen 3))) (Some (Resized (Gray (Screen 3)) 960 540))
           [BestMatch PyramidCoarse (Resized (Gray (Screen 3)) 960 540) (Resized (Gray (Template 1)) 20 15)]])"
  by code_simp

lemma ex_state_ok: "ids_enumerated (templates (ex_state p n))" "downscale_factor (cfg (ex_state p n)) \<noteq> 0"
  by (simp_all add: ex_state_def ids_enumerated_def ex_template_def ex_template2_def ex_cfg_facts)

text \<open>
  Claim C4. A \<open>find_all\<close> cycle (on a tracker whose templates are numbered as
  \<open>__init__\<close> numbers them, with a non-zero downscale factor) completes, and it makes
  exactly one screen capture; every template is matched once, in order, and every
  \<open>_match_one\<close> call of the cycle receives the same three frame arguments: the captured
  frame, its one grayscale conversion (if grayscale is on) and the one downscaled copy
  (if the pyramid is on). At most one downscaled copy is made in the cycle, and every
  coarse pyramid match of the cycle, whatever the template, searches that copy.
\<close>

theorem find_all_one_capture:
  assumes "ids_enumerated (templates tr)" and "downscale_factor (cfg tr) \<noteq> 0"
  shows "\<exists>tr' rs lg. find_all cv tr = Inr (tr', rs, lg)
     \<and> grabs tr' = grabs tr + 1
     \<and> filter is_grab lg = [Grab (cycle_frame cv tr)]
     \<and> length (filter is_resize lg) \<le> 1
     \<and> (\<forall>e \<in> set lg. is_match_one e \<longrightarrow>
           match_args e = Some (cycle_frame cv tr, cycle_gray cv tr, cycle_small cv tr))
     \<and> List.map_filter match_id lg = map t_id (templates tr)
     \<and> (\<forall>e \<in> set lg. \<forall>i. \<forall>cl \<in> set (match_calls i e).
           call_tier cl = PyramidCoarse \<longrightarrow> cycle_small cv tr = Some (call_region cl))"
proof -
  from find_all_total [OF assms] obtain tr' rs lg where f: "find_all cv tr = Inr (tr', rs, lg)"
    by blast
  from find_all_log [OF f] f show ?thesis by blast
qed

theorem find_all_one_capture_witness:
  "ids_enumerated (templates (ex_state None 0)) \<and> downscale_factor (cfg (ex_state None 0)) \<noteq> 0 \<and>
   find_all ex_cv (ex_state None 0) =
   Inr (ex_state (Some (800, 400)) 1,
        [found_result ex_template 800 400 0.92 ''Pyramid'', not_found_result ex_template2],
        [Grab (Screen 0), CvtGray (Screen 0), Resize (Gray (Screen 0)) (960, 540),
         MatchOne 0 (Screen 0) (Some (Gray (Screen 0))) (Some (Resized (Gray (Screen 0)) 960 540))
           [BestMatch PyramidCoarse (Resized (Gray (Screen 0)) 960 540) (Resized (Gray (Template 0)) 25 25),
            BestMatch PyramidRefine (Crop (Gray (Screen 0)) 300 550 700 950) (Gray (Template 0))],
         MatchOne 1 (Screen 0) (Some (Gray (Screen 0))) (Some (Resized (Gray (Screen 0)) 960 540))
           [BestMatch PyramidCoarse (Resized (Gray (Screen 0)) 960 540) (Resized (Gray (Template 1)) 20 15)]]) \<and>
   grabs (ex_state (Some (800, 400)) 1) = grabs (ex_state None 0) + 1 \<and>
   cycle_frame ex_cv (ex_state None 0) = Screen 0 \<and>
   cycle_gray ex_cv (ex_state None 0) = Some (Gray (Screen 0)) \<and>
   cycle_small ex_cv (ex_state None 0) = Some (Resized (Gray (Screen 0)) 960 540)"
proof -
  from find_all_one_capture [OF ex_state_ok(1) [of None 0] ex_state_ok(2) [of None 0], of ex_cv]
  have "grabs (ex_state (Some (800, 400)) 1) = grabs (ex_state None 0) + 1"
    unfolding ex_cycle1 by simp
  moreover have "cycle_frame ex_cv (ex_state None 0) = Screen 0"
    "cycle_gray ex_cv (ex_state None 0) = Some (Gray (Screen 0))"
    "cycle_small ex_cv (ex_state None 0) = Some (Resized (Gray (Screen 0)) 960 540)"
    by (simp_all add: cycle_frame_def cycle_gray_def cycle_small_def ex_state_def ex_cv_def
        ex_cfg_def init_cfg_def py_int_def)
  ultimately show ?thesis using ex_state_ok [of None 0] ex_cycle1 by simp
qed

lemma find_all_no_heuristic:
  assumes "find_all cv tr = Inr (tr', rs, lg)" and "ids_enumerated (templates tr)"
    and "i < length (templates tr)" and "last_pos (templates tr ! i) = None"
  shows "\<forall>e \<in> set lg. \<forall>cl \<in> set (match_calls i e). call_tier cl \<noteq> Heuristic"
proof (intro ballI)
  fix e cl
  assume e: "e \<in> set lg" and cl: "cl \<in> set (match_calls i e)"
  from assms(1) obtain mrs e1 e2 where
    m: "match_all (cfg tr) cv (templates tr) (cycle_frame cv tr) (cycle_gray cv tr) (cycle_small cv tr) = Inr mrs"
    and l: "lg = Grab (cycle_frame cv tr) # e1 @ e2 @ map snd mrs"
    and e1: "\<forall>e \<in> set e1. \<not> is_grab e \<and> \<not> is_resize e \<and> \<not> is_match_one e \<and> match_id e = None"
    and e2: "\<forall>e \<in> set e2. \<not> is_grab e \<and> \<not> is_match_one e \<and> match_id e = None"
    by (elim find_all_E) blast
  have "e \<in> set (map snd mrs)"
  proof (rule ccontr)
    assume "e \<notin> set (map snd mrs)"
    with e l e1 e2 have "\<not> is_match_one e" by auto
    from not_match_one_calls [OF this] cl show False by simp
  qed
  from match_all_snd [OF m this] obtain j cs where
    jl: "j < length (templates tr)"
    and j: "e = MatchOne (t_id (templates tr ! j)) (cycle_frame cv tr) (cycle_gray cv tr) (cycle_small cv tr) cs"
    and mo: "match_one (cfg tr) cv (templates tr ! j) (cycle_frame cv tr) (cycle_gray cv tr)
               (cycle_small cv tr) = Inr (fst (mrs ! j), cs)"
    by blast
  from cl j have ij: "i = t_id (templates tr ! j)" and c: "cl \<in> set cs" by (simp_all split: if_splits)
  have "t_id (templates tr ! j) = map t_id (templates tr) ! j" using jl by simp
  also have "\<dots> = j" using assms(2) jl by (simp add: ids_enumerated_def)
  finally have "i = j" using ij by simp
  with assms(4) have "last_pos (templates tr ! j) = None" by simp
  with match_one_props [OF mo, THEN conjunct2, THEN conjunct1]
  have "Heuristic \<notin> call_tier ` set cs" by blast
  with c show "call_tier cl \<noteq> Heuristic" by force
qed

text \<open>
  Claim C5. After a completed \<open>find_all\<close> cycle, result \<open>i\<close> belongs to template \<open>i\<close>,
  and the template's \<open>last_pos\<close> is the result's \<open>(x, y)\<close> if the result is found and
  \<open>None\<close> if it is not. The next cycle completes too, and in it no heuristic-stage
  \<open>_best_match\<close> call is made for any template whose result was not found.
\<close>

theorem find_all_last_pos:
  assumes "ids_enumerated (templates tr)" and "downscale_factor (cfg tr) \<noteq> 0"
  shows "\<exists>tr' rs lg. find_all cv tr = Inr (tr', rs, lg)
     \<and> length rs = length (templates tr) \<and> length (templates tr') = length (templates tr)
     \<and> (\<forall>i<length rs. r_id (rs ! i) = i \<and>
           last_pos (templates tr' ! i) =
             (if r_found (rs ! i) then Some (r_x (rs ! i), r_y (rs ! i)) else None))
     \<and> (\<exists>tr'' rs' lg'. find_all cv tr' = Inr (tr'', rs', lg')
           \<and> (\<forall>i<length rs. \<not> r_found (rs ! i) \<longrightarrow>
                 (\<forall>e \<in> set lg'. \<forall>cl \<in> set (match_calls i e). call_tier cl \<noteq> Heuristic)))"
proof -
  from find_all_total [OF assms] obtain tr' rs lg where f: "find_all cv tr = Inr (tr', rs, lg)"
    by blast
  note st = find_all_state [OF f assms(1)]
  from f have c: "cfg tr' = cfg tr" by (rule find_all_E)
  have lp: "\<forall>i<length rs. r_id (rs ! i) = i \<and>
           last_pos (templates tr' ! i) =
             (if r_found (rs ! i) then Some (r_x (rs ! i), r_y (rs ! i)) else None)"
    using st(1,3,4) by (simp add: updated_def)
  from find_all_total [OF st(5), of cv] assms(2) c obtain tr'' rs' lg' where
    f2: "find_all cv tr' = Inr (tr'', rs', lg')" by auto
  have nh: "\<forall>i<length rs. \<not> r_found (rs ! i) \<longrightarrow>
              (\<forall>e \<in> set lg'. \<forall>cl \<in> set (match_calls i e). call_tier cl \<noteq> Heuristic)"
  proof (intro allI impI)
    fix i assume i: "i < length rs" and nf: "\<not> r_found (rs ! i)"
    from i st(1,2) have i': "i < length (templates tr')" by simp
    from lp i nf have "last_pos (templates tr' ! i) = None" by simp
    from find_all_no_heuristic [OF f2 st(5) i' this]
    show "\<forall>e \<in> set lg'. \<forall>cl \<in> set (match_calls i e). call_tier cl \<noteq> Heuristic" .
  qed
  from f st(1,2) lp f2 nh show ?thesis by blast
qed

theorem find_all_last_pos_witness:
  "ids_enumerated (templates (ex_state (Some (820, 400)) 2)) \<and>
   downscale_factor (cfg (ex_state (Some (820, 400)) 2)) \<noteq> 0 \<and>
   find_all ex_cv (ex_state (Some (820, 400)) 2) =
   Inr (ex_state None 3,
        [not_found_result ex_template, not_found_result ex_template2],
        [Grab (Screen 2), CvtGray (Screen 2), Resize (Gray (Screen 2)) (960, 540),
         MatchOne 0 (Screen 2) (Some (Gray (Screen 2))) (Some (Resized (Gray (Screen 2)) 960 540))
           [BestMatch Heuristic (Crop (Gray (Screen 2)) 250 600 670 1020) (Gray (Template 0)),
            BestMatch PyramidCoarse (Resized (Gray (Screen 2)) 960 540) (Resized (Gray (Template 0)) 25 25)],
         MatchOne 1 (Screen 2) (Some (Gray (Screen 2))) (Some (Resized (Gray (Screen 2)) 960 540))
           [BestMatch PyramidCoarse (Resized (Gray (Screen 2)) 960 540) (Resized (Gray (Template 1)) 20 15)]]) \<and>
   \<not> r_found (not_found_result ex_template) \<and>
   last_pos (templates (ex_state None 3) ! 0) = None \<and>
   find_all ex_cv (ex_state None 3) =
   Inr (ex_state None 4,
        [not_found_result ex_template, not_found_result ex_template2],
        [Grab (Screen 3), CvtGray (Screen 3), Resize (Gray (Screen 3)) (960, 540),
         MatchOne 0 (Screen 3) (Some (Gray (Screen 3))) (Some (Resized (Gray (Screen 3)) 960 540))
           [BestMatch PyramidCoarse (Resized (Gray (Screen 3)) 960 540) (Resized (Gray (Template 0)) 25 25)],
         MatchOne 1 (Screen 3) (Some (Gray (Screen 3))) (Some (Resized (Gray (Screen 3)) 960 540))
           [BestMatch PyramidCoarse (Resized (Gray (Screen 3)) 960 540) (Resized (Gray (Template 1)) 20 15)]])"
proof -
  from find_all_last_pos [OF ex_state_ok(1) [of "Some (820, 400)" 2]
      ex_state_ok(2) [of "Some (820, 400)" 2], of ex_cv]
  have "last_pos (templates (ex_state None 3) ! 0) = None"
    unfolding ex_cycle3 by (auto simp: not_found_result_def)
  then show ?thesis
    using ex_state_ok [of "Some (820, 400)" 2] ex_cycle3 ex_cycle4 by (simp add: not_found_result_def)
qed

section \<open>Properties of the store and of the tracker service\<close>

lemma update_entity_heap:
  "fst (update_entity gs name x y found extra h) =
     h\<lparr>dicts := (dicts h)(fresh h := new_entity x y found extra),
       fresh := fresh h + 1,
       tables := (tables h)(entities gs := (tables h (entities gs))(name \<mapsto> fresh h))\<rparr>"
  by (simp add: update_entity_def Let_def)

lemma heap_ok_update:
  assumes "heap_ok h gs"
  shows "heap_ok (fst (update_entity gs name x y found extra h)) gs"
  using assms unfolding heap_ok_def update_entity_heap
  by (auto simp: less_Suc_eq split: if_splits)

lemma view_update_store:
  assumes "heap_ok h gs"
  shows "view (fst (update_entity gs name x y found extra h)) (entities gs) =
           (view h (entities gs))(name \<mapsto> new_entity x y found extra)"
proof
  fix n
  show "view (fst (update_entity gs name x y found extra h)) (entities gs) n =
           ((view h (entities gs))(name \<mapsto> new_entity x y found extra)) n"
  proof (cases "n = name")
    case True
    then show ?thesis by (simp add: view_def update_entity_heap)
  next
    case False
    show ?thesis
    proof (cases "tables h (entities gs) n")
      case None
      then show ?thesis using False by (simp add: view_def update_entity_heap)
    next
      case (Some d)
      with assms have "d < fresh h" unfolding heap_ok_def by blast
      then show ?thesis using False Some by (simp add: view_def update_entity_heap)
    qed
  qed
qed

lemma view_update_other:
  assumes "heap_ok h gs" and "a < fresh h" and "a \<noteq> entities gs"
  shows "view (fst (update_entity gs name x y found extra h)) a = view h a"
proof
  fix n
  show "view (fst (update_entity gs name x y found extra h)) a n = view h a n"
  proof (cases "tables h a n")
    case None
    then show ?thesis using assms(3) by (simp add: view_def update_entity_heap)
  next
    case (Some d)
    with assms(1) have "d < fresh h" unfolding heap_ok_def by blast
    then show ?thesis using assms(3) Some by (simp add: view_def update_entity_heap)
  qed
qed

lemma fresh_update: "fresh (fst (update_entity gs name x y found extra h)) = fresh h + 1"
  by (simp add: update_entity_heap)

lemma view_update_all:
  "heap_ok h gs \<Longrightarrow> a < fresh h \<Longrightarrow> a \<noteq> entities gs \<Longrightarrow> view (update_all gs us h) a = view h a"
proof (induction us arbitrary: h)
  case Nil
  show ?case by simp
next
  case (Cons u us)
  obtain name x y found extra where u: "u = (name, x, y, found, extra)" by (cases u) auto
  let ?h1 = "fst (update_entity gs name x y found extra h)"
  have "view (update_all gs us ?h1) a = view ?h1 a"
    using Cons.prems by (intro Cons.IH heap_ok_update) (simp_all add: fresh_update)
  also have "\<dots> = view h a" using Cons.prems by (rule view_update_other)
  finally show ?case using u by simp
qed

lemma get_all_entities_heap:
  "get_all_entities gs h =
     (fresh h, h\<lparr>tables := (tables h)(fresh h := tables h (entities gs)), fresh := fresh h + 1\<rparr>,
      [Acquire, ReadTable (entities gs), NewTable (fresh h), Release])"
  by (simp add: get_all_entities_def Let_def)

lemma get_all_entities_ok:
  assumes "heap_ok h gs" and "get_all_entities gs h = (a, h1, tr)"
  shows "heap_ok h1 gs" and "a < fresh h1" and "a \<noteq> entities gs"
    and "view h1 a = view h (entities gs)" and "view h1 (entities gs) = view h (entities gs)"
proof -
  from assms(2) have a: "a = fresh h"
    and h1: "h1 = h\<lparr>tables := (tables h)(fresh h := tables h (entities gs)), fresh := fresh h + 1\<rparr>"
    by (auto simp: get_all_entities_heap)
  from assms(1) have e: "entities gs < fresh h" by (simp add: heap_ok_def)
  show "heap_ok h1 gs" using assms(1) unfolding heap_ok_def h1
    by (auto simp: less_Suc_eq split: if_splits)
  show "a < fresh h1" by (simp add: a h1)
  show "a \<noteq> entities gs" using e a by simp
  show "view h1 a = view h (entities gs)" by (simp add: view_def a h1)
  show "view h1 (entities gs) = view h (entities gs)" using e by (simp add: view_def h1)
qed

lemma get_found_entities_heap:
  "get_found_entities gs h =
     (fresh h,
      h\<lparr>tables := (tables h)(fresh h := (\<lambda>k. case tables h (entities gs) k of
                               None \<Rightarrow> None
                             | Some d \<Rightarrow> if is_found (dicts h d) then Some d else None)),
        fresh := fresh h + 1\<rparr>,
      [Acquire, ReadTable (entities gs), NewTable (fresh h), Release])"
  by (simp add: get_found_entities_def Let_def)

lemma get_found_entities_ok:
  assumes "heap_ok h gs" and "get_found_entities gs h = (a, h1, tr)"
  shows "heap_ok h1 gs" and "a < fresh h1" and "a \<noteq> entities gs"
    and "view h1 a = (\<lambda>n. case view h (entities gs) n of
                             None \<Rightarrow> None | Some v \<Rightarrow> if is_found v then Some v else None)"
    and "view h1 (entities gs) = view h (entities gs)"
proof -
  from assms(2) have a: "a = fresh h"
    and h1: "h1 = h\<lparr>tables := (tables h)(fresh h := (\<lambda>k. case tables h (entities gs) k of
                               None \<Rightarrow> None
                             | Some d \<Rightarrow> if is_found (dicts h d) then Some d else None)),
        fresh := fresh h + 1\<rparr>"
    by (auto simp: get_found_entities_heap)
  from assms(1) have e: "entities gs < fresh h" by (simp add: heap_ok_def)
  show "heap_ok h1 gs" using assms(1) unfolding heap_ok_def h1
    by (auto simp: less_Suc_eq split: if_splits option.splits)
  show "a < fresh h1" by (simp add: a h1)
  show "a \<noteq> entities gs" using e a by simp
  show "view h1 a = (\<lambda>n. case view h (entities gs) n of
                             None \<Rightarrow> None | Some v \<Rightarrow> if is_found v then Some v else None)"
    by (rule ext) (simp add: view_def a h1 split: option.splits)
  show "view h1 (entities gs) = view h (entities gs)" using e by (simp add: view_def h1)
qed

lemma heap_ok_init: "heap_ok init_heap init_game_state"
  by (simp add: heap_ok_def init_heap_def init_game_state_def)

lemma under_lock_ops:
  "under_lock (snd (update_entity gs name x y found extra h))"
  "under_lock (snd (get_entity gs name h))"
  "under_lock (snd (snd (get_all_entities gs h)))"
  "under_lock (snd (snd (get_found_entities gs h)))"
  by (simp_all add: update_entity_def get_entity_def get_all_entities_def get_found_entities_def Let_def)

text \<open>
  Claim C9. On a heap as Python builds it, \<open>update_entity\<close> makes the store show, under
  \<open>name\<close>, exactly the dictionary built from its arguments, whatever was stored there
  before, and leaves every other name as it was. \<open>update_entity\<close>,
  \<open>get_all_entities\<close> and \<open>get_found_entities\<close> acquire the lock first and release it
  last. The two readers return a new table, not the store's own: it shows what the store
  showed at the time of the call (for \<open>get_found_entities\<close>, the entries whose
  \<open>found\<close> is true), and it still shows the same after any sequence of
  \<open>update_entity\<close> calls.
\<close>

theorem store_replace_and_snapshot:
  assumes "heap_ok h gs"
  shows "view (fst (update_entity gs name x y found extra h)) (entities gs) =
           (view h (entities gs))(name \<mapsto> new_entity x y found extra)
    \<and> under_lock (snd (update_entity gs name x y found extra h))
    \<and> under_lock (snd (snd (get_all_entities gs h)))
    \<and> under_lock (snd (snd (get_found_entities gs h)))
    \<and> (let (a, h1, tr) = get_all_entities gs h
        in a \<noteq> entities gs \<and> view h1 a = view h (entities gs) \<and>
           view h1 (entities gs) = view h (entities gs) \<and>
           (\<forall>us. view (update_all gs us h1) a = view h1 a))
    \<and> (let (a, h1, tr) = get_found_entities gs h
        in a \<noteq> entities gs \<and>
           view h1 a = (\<lambda>n. case view h (entities gs) n of
                               None \<Rightarrow> None | Some v \<Rightarrow> if is_found v then Some v else None) \<and>
           view h1 (entities gs) = view h (entities gs) \<and>
           (\<forall>us. view (update_all gs us h1) a = view h1 a))"
proof -
  obtain a h1 tr where ga: "get_all_entities gs h = (a, h1, tr)"
    by (cases "get_all_entities gs h")
  note A = get_all_entities_ok [OF assms ga]
  have sa: "\<forall>us. view (update_all gs us h1) a = view h1 a"
    using view_update_all [OF A(1,2,3)] by blast
  obtain b h2 tr2 where gf: "get_found_entities gs h = (b, h2, tr2)"
    by (cases "get_found_entities gs h")
  note B = get_found_entities_ok [OF assms gf]
  have sb: "\<forall>us. view (update_all gs us h2) b = view h2 b"
    using view_update_all [OF B(1,2,3)] by blast
  have la: "under_lock tr" using under_lock_ops(3) [of gs h] ga by simp
  have lb: "under_lock tr2" using under_lock_ops(4) [of gs h] gf by simp
  show ?thesis
    using view_update_store [OF assms, of name x y found extra]
      under_lock_ops(1) [of gs name x y found extra h] la lb A(3,4,5) sa B(3,4,5) sb
    unfolding ga gf by simp
qed

theorem store_replace_and_snapshot_witness:
  "heap_ok (fst (update_entity init_game_state ''slime'' 800 400 True Map.empty init_heap)) init_game_state \<and>
   fst (get_all_entities init_game_state
          (fst (update_entity init_game_state ''slime'' 800 400 True Map.empty init_heap))) = 2 \<and>
   view (update_all init_game_state [(''slime'', 0, 0, False, Map.empty)]
           (fst (snd (get_all_entities init_game_state
              (fst (update_entity init_game_state ''slime'' 800 400 True Map.empty init_heap)))))) 2 ''slime'' =
     Some (new_entity 800 400 True Map.empty) \<and>
   view (update_all init_game_state [(''slime'', 0, 0, False, Map.empty)]
           (fst (snd (get_all_entities init_game_state
              (fst (update_entity init_game_state ''slime'' 800 400 True Map.empty init_heap))))))
        (entities init_game_state) ''slime'' =
     Some (new_entity 0 0 False Map.empty)"
proof -
  let ?g = init_game_state
  let ?h1 = "fst (update_entity ?g ''slime'' 800 400 True Map.empty init_heap)"
  have ok: "heap_ok ?h1 ?g" by (rule heap_ok_update [OF heap_ok_init])
  have a: "fst (get_all_entities ?g ?h1) = 2"
    by (simp add: get_all_entities_heap update_entity_heap init_heap_def)
  let ?h2 = "fst (snd (get_all_entities ?g ?h1))"
  let ?us = "[(''slime'', 0, 0, False, Map.empty)]"
  obtain a' h2' tr' where ga: "get_all_entities ?g ?h1 = (a', h2', tr')"
    by (cases "get_all_entities ?g ?h1")
  from ga a have a2: "a' = 2" by simp
  from ga have h2: "h2' = ?h2" by simp
  note t = store_replace_and_snapshot [OF ok, of "''slime''" 800 400 True Map.empty]
  from t [unfolded ga Let_def prod.case]
  have "view (update_all ?g ?us h2') a' = view h2' a' \<and> view h2' a' = view ?h1 (entities ?g)"
    by blast
  then have s: "view (update_all ?g ?us ?h2) 2 = view ?h1 (entities ?g)"
    using a2 h2 by simp
  have v1: "view ?h1 (entities ?g) ''slime'' = Some (new_entity 800 400 True Map.empty)"
    using view_update_store [OF heap_ok_init, of "''slime''" 800 400 True Map.empty] by simp
  have ok2: "heap_ok ?h2 ?g" using get_all_entities_ok(1) [OF ok ga] h2 by simp
  have v2: "view (update_all ?g ?us ?h2) (entities ?g) ''slime'' = Some (new_entity 0 0 False Map.empty)"
    using view_update_store [OF ok2, of "''slime''" 0 0 False Map.empty] by simp
  show ?thesis using ok a s v1 v2 by simp
qed

lemma publish_view:
  "heap_ok h gs \<Longrightarrow> k + length rs \<le> length names \<Longrightarrow> distinct names \<Longrightarrow>
   \<exists>h'. publish gs names k rs h = Inr h' \<and> heap_ok h' gs \<and>
     (\<forall>i<length rs. view h' (entities gs) (names ! (k + i)) = Some (published_entity (rs ! i))) \<and>
     (\<forall>n. n \<notin> set (take (length rs) (drop k names)) \<longrightarrow>
            view h' (entities gs) n = view h (entities gs) n)"
proof (induction rs arbitrary: k h)
  case Nil
  then show ?case by simp
next
  case (Cons r rs)
  from Cons.prems(2) have kl: "k < length names" by simp
  let ?h1 = "fst (update_entity gs (names ! k) (r_x r) (r_y r) (r_found r) (published_extra r) h)"
  have ok1: "heap_ok ?h1 gs" by (rule heap_ok_update [OF Cons.prems(1)])
  have v1: "view ?h1 (entities gs) = (view h (entities gs))(names ! k \<mapsto> published_entity r)"
    using view_update_store [OF Cons.prems(1)] by (simp add: published_entity_def)
  from Cons.prems(2) have len: "Suc k + length rs \<le> length names" by simp
  from Cons.IH [OF ok1 len Cons.prems(3)] obtain h' where
    p: "publish gs names (Suc k) rs ?h1 = Inr h'" and ok': "heap_ok h' gs"
    and hit: "\<forall>i<length rs. view h' (entities gs) (names ! (Suc k + i)) = Some (published_entity (rs ! i))"
    and rest: "\<forall>n. n \<notin> set (take (length rs) (drop (Suc k) names)) \<longrightarrow>
                 view h' (entities gs) n = view ?h1 (entities gs) n"
    by blast
  have dr: "drop k names = names ! k # drop (Suc k) names"
    using kl by (simp add: Cons_nth_drop_Suc)
  have "distinct (drop k names)" using Cons.prems(3) by simp
  then have nk: "names ! k \<notin> set (drop (Suc k) names)" unfolding dr by simp
  then have nk': "names ! k \<notin> set (take (length rs) (drop (Suc k) names))"
    using set_take_subset by fastforce
  have pub: "publish gs names k (r # rs) h = Inr h'" using p kl by simp
  have hit': "\<forall>i<length (r # rs). view h' (entities gs) (names ! (k + i)) =
                 Some (published_entity ((r # rs) ! i))"
  proof (intro allI impI)
    fix i assume i: "i < length (r # rs)"
    show "view h' (entities gs) (names ! (k + i)) = Some (published_entity ((r # rs) ! i))"
    proof (cases i)
      case 0
      then show ?thesis using rest nk' v1 by simp
    next
      case (Suc j)
      then show ?thesis using hit i by simp
    qed
  qed
  have rest': "\<forall>n. n \<notin> set (take (length (r # rs)) (drop k names)) \<longrightarrow>
                 view h' (entities gs) n = view h (entities gs) n"
  proof (intro allI impI)
    fix n assume n: "n \<notin> set (take (length (r # rs)) (drop k names))"
    then have "n \<noteq> names ! k" "n \<notin> set (take (length rs) (drop (Suc k) names))"
      unfolding dr by simp_all
    then show "view h' (entities gs) n = view h (entities gs) n"
      using rest v1 by simp
  qed
  from pub ok' hit' rest' show ?case by blast
qed

lemma match_one_not_found:
  assumes "match_one c cv t fb fg fsm = Inr (r, cs)" and "\<not> r_found r"
  shows "r = not_found_result t"
  using assms(1)
proof (cases rule: match_one_E)
  case (heur frame)
  from heur(2) assms(2) show ?thesis by (elim heuristic_tier_E) simp_all
next
  case (pyr frame cs1 cs2)
  from pyr(3) assms(2) show ?thesis by (elim pyramid_tier_E) simp_all
next
  case (full frame cs1 cs2 cs3)
  from full(4) assms(2) show ?thesis by (elim full_scan_tier_E) simp_all
next
  case (none frame cs1 cs2 cs3)
  then show ?thesis by simp
qed

lemma find_all_not_found:
  assumes "find_all cv tr = Inr (tr', rs, lg)" and "i < length rs" and "\<not> r_found (rs ! i)"
  shows "rs ! i = not_found_result (templates tr ! i)"
proof -
  from assms(1) obtain mrs where
    m: "match_all (cfg tr) cv (templates tr) (cycle_frame cv tr) (cycle_gray cv tr) (cycle_small cv tr) = Inr mrs"
    and r: "rs = map fst mrs"
    by (rule find_all_E)
  from assms(2) r match_all_events(1) [OF m] have i: "i < length (templates tr)" "i < length mrs" by simp_all
  with match_all_events(2) [OF m] obtain cs where
    "match_one (cfg tr) cv (templates tr ! i) (cycle_frame cv tr) (cycle_gray cv tr) (cycle_small cv tr)
       = Inr (fst (mrs ! i), cs)" by blast
  from match_one_not_found [OF this] assms(3) r i show ?thesis by simp
qed

lemma published_not_found:
  "published_entity (not_found_result t) ''x'' = Some (PInt 0)"
  "published_entity (not_found_result t) ''y'' = Some (PInt 0)"
  "published_entity (not_found_result t) ''found'' = Some (PBool False)"
  by (simp_all add: published_entity_def new_entity_def published_extra_def not_found_result_def)

text \<open>
  Claim C10. One iteration of the tracking loop (templates numbered as \<open>__init__\<close>
  numbers them, non-zero downscale factor, one distinct name per template) completes,
  and for every template whose result is not found the result has \<open>x = 0\<close>, \<open>y = 0\<close>
  and score 0, and the store then shows under the template's name exactly the dictionary
  published for that result, with \<open>x = 0\<close>, \<open>y = 0\<close> and \<open>found = False\<close>, whatever it
  showed before.
\<close>

theorem miss_publishes_origin:
  assumes "ids_enumerated (templates tr)" and "downscale_factor (cfg tr) \<noteq> 0"
    and "length names = length (templates tr)" and "distinct names" and "heap_ok h gs"
  shows "\<exists>tr' rs h'. tracking_cycle cv gs names tr h = Inr (tr', rs, h') \<and> length rs = length names
     \<and> (\<forall>i<length names. \<not> r_found (rs ! i) \<longrightarrow>
           r_x (rs ! i) = 0 \<and> r_y (rs ! i) = 0 \<and> r_score (rs ! i) = 0 \<and>
           view h' (entities gs) (names ! i) = Some (published_entity (rs ! i)) \<and>
           published_entity (rs ! i) ''x'' = Some (PInt 0) \<and>
           published_entity (rs ! i) ''y'' = Some (PInt 0) \<and>
           published_entity (rs ! i) ''found'' = Some (PBool False))"
proof -
  from find_all_total [OF assms(1,2)] obtain tr' rs lg where f: "find_all cv tr = Inr (tr', rs, lg)"
    by blast
  have len: "length rs = length names" using find_all_state(1) [OF f assms(1)] assms(3) by simp
  then have "0 + length rs \<le> length names" by simp
  from publish_view [OF assms(5) this assms(4)] obtain h' where
    p: "publish gs names 0 rs h = Inr h'"
    and hit: "\<forall>i<length rs. view h' (entities gs) (names ! (0 + i)) = Some (published_entity (rs ! i))"
    by blast
  have tc: "tracking_cycle cv gs names tr h = Inr (tr', rs, h')"
    using f p by (simp add: tracking_cycle_def)
  have "\<forall>i<length names. \<not> r_found (rs ! i) \<longrightarrow>
           r_x (rs ! i) = 0 \<and> r_y (rs ! i) = 0 \<and> r_score (rs ! i) = 0 \<and>
           view h' (entities gs) (names ! i) = Some (published_entity (rs ! i)) \<and>
           published_entity (rs ! i) ''x'' = Some (PInt 0) \<and>
           published_entity (rs ! i) ''y'' = Some (PInt 0) \<and>
           published_entity (rs ! i) ''found'' = Some (PBool False)"
  proof (intro allI impI)
    fix i assume i: "i < length names" and nf: "\<not> r_found (rs ! i)"
    from i len have i': "i < length rs" by simp
    from find_all_not_found [OF f i' nf] have e: "rs ! i = not_found_result (templates tr ! i)" .
    show "r_x (rs ! i) = 0 \<and> r_y (rs ! i) = 0 \<and> r_score (rs ! i) = 0 \<and>
           view h' (entities gs) (names ! i) = Some (published_entity (rs ! i)) \<and>
           published_entity (rs ! i) ''x'' = Some (PInt 0) \<and>
           published_entity (rs ! i) ''y'' = Some (PInt 0) \<and>
           published_entity (rs ! i) ''found'' = Some (PBool False)"
    proof -
      have v: "view h' (entities gs) (names ! i) = Some (published_entity (rs ! i))"
        using hit i' by simp
      have z: "r_x (rs ! i) = 0" "r_y (rs ! i) = 0" "r_score (rs ! i) = 0"
        by (simp_all add: e not_found_result_def)
      have q: "published_entity (rs ! i) ''x'' = Some (PInt 0)"
        "published_entity (rs ! i) ''y'' = Some (PInt 0)"
        "published_entity (rs ! i) ''found'' = Some (PBool False)"
        by (simp_all add: e published_not_found)
      from v z q show ?thesis by blast
    qed
  qed
  with tc len show ?thesis by blast
qed

lemma ex_names_ok:
  "length [''slime'', ''bat''] = length (templates (ex_state p n))" "distinct [''slime'', ''bat'']"
  by (simp_all add: ex_state_def)

theorem miss_publishes_origin_witness:
  "view (fst (update_entity init_game_state ''slime'' 820 400 True Map.empty init_heap))
     (entities init_game_state) ''slime'' = Some (new_entity 820 400 True Map.empty) \<and>
   new_entity 820 400 True Map.empty ''x'' = Some (PInt 820) \<and>
   (case tracking_cycle ex_cv init_game_state [''slime'', ''bat''] (ex_state (Some (820, 400)) 2)
           (fst (update_entity init_game_state ''slime'' 820 400 True Map.empty init_heap)) of
      Inl e \<Rightarrow> None
    | Inr (tr', rs, h') \<Rightarrow> view h' (entities init_game_state) ''slime'') =
     Some (published_entity (not_found_result ex_template)) \<and>
   published_entity (not_found_result ex_template) ''x'' = Some (PInt 0) \<and>
   published_entity (not_found_result ex_template) ''y'' = Some (PInt 0)"
proof -
  let ?g = init_game_state
  let ?h = "fst (update_entity ?g ''slime'' 820 400 True Map.empty init_heap)"
  let ?tr = "ex_state (Some (820, 400)) 2"
  have ok: "heap_ok ?h ?g" by (rule heap_ok_update [OF heap_ok_init])
  have v0: "view ?h (entities ?g) ''slime'' = Some (new_entity 820 400 True Map.empty)"
    using view_update_store [OF heap_ok_init, of "''slime''" 820 400 True Map.empty] by simp
  from miss_publishes_origin [OF ex_state_ok(1) [of "Some (820, 400)" 2] ex_state_ok(2) [of "Some (820, 400)" 2]
      ex_names_ok(1) [of "Some (820, 400)" 2] ex_names_ok(2) ok, of ex_cv]
  obtain tr' rs h' where
    tc: "tracking_cycle ex_cv ?g [''slime'', ''bat''] ?tr ?h = Inr (tr', rs, h')"
    and p: "\<forall>i<length [''slime'', ''bat'']. \<not> r_found (rs ! i) \<longrightarrow>
           r_x (rs ! i) = 0 \<and> r_y (rs ! i) = 0 \<and> r_score (rs ! i) = 0 \<and>
           view h' (entities ?g) ([''slime'', ''bat''] ! i) = Some (published_entity (rs ! i)) \<and>
           published_entity (rs ! i) ''x'' = Some (PInt 0) \<and>
           published_entity (rs ! i) ''y'' = Some (PInt 0) \<and>
           published_entity (rs ! i) ''found'' = Some (PBool False)"
    by blast
  from tc have rs: "rs = [not_found_result ex_template, not_found_result ex_template2]"
    by (auto simp: tracking_cycle_def ex_cycle3 split: sum.splits)
  from p [rule_format, of 0] rs
  have "view h' (entities ?g) ''slime'' = Some (published_entity (not_found_result ex_template))"
    by (simp add: not_found_result_def)
  then show ?thesis using tc v0
    by (simp add: published_not_found) (simp add: new_entity_def)
qed

end
